theory Spec2Isabelle
  imports Complex_Main "HOL-Library.Sublist"
begin

section \<open>Wallaby: a result log in one SQLite table\<close>

text \<open>
  The embedding follows \<^verbatim>\<open>wallaby/__init__.py\<close>. The class \<^verbatim>\<open>Wallaby\<close> keeps a path and
  a lazily opened connection; every operation goes through \<^verbatim>\<open>_execute\<close>, which runs one
  SQL statement and commits. The SQL engine and the JSON encoder are libraries the
  class calls; they are modelled here as far as the statements of the class need them,
  the engine with the limits it is built with by default. A behaviour of the engine
  that the model does not determine is the outcome \<open>Unmodelled\<close>, kept apart from the
  faults the program can raise.

  Strings are lists of 8-bit characters. Timestamps are real numbers (the finite values
  of a Python float); not-a-number and infinities are outside the embedding.
\<close>

subsection \<open>Faults\<close>

datatype fault =
    InvalidQueryFault      \<comment> \<open>\<^verbatim>\<open>ValueError\<close> raised by \<^verbatim>\<open>get_by_tag\<close>\<close>
  | StorageFault           \<comment> \<open>an exception of the \<^verbatim>\<open>sqlite3\<close> binding\<close>
  | SerializationFault     \<comment> \<open>\<^verbatim>\<open>TypeError\<close> raised by \<^verbatim>\<open>json.dumps\<close>\<close>
  | Unmodelled             \<comment> \<open>the model of the engine does not say what happens\<close>

subsection \<open>Characters and strings\<close>

definition to_lower :: "char \<Rightarrow> char" where
  "to_lower c =
     (case map_of (zip ''ABCDEFGHIJKLMNOPQRSTUVWXYZ'' ''abcdefghijklmnopqrstuvwxyz'') c of
        Some d \<Rightarrow> d
      | None \<Rightarrow> c)"

definition to_upper :: "char \<Rightarrow> char" where
  "to_upper c =
     (case map_of (zip ''abcdefghijklmnopqrstuvwxyz'' ''ABCDEFGHIJKLMNOPQRSTUVWXYZ'') c of
        Some d \<Rightarrow> d
      | None \<Rightarrow> c)"

definition is_digit :: "char \<Rightarrow> bool" where
  "is_digit c \<longleftrightarrow> c \<in> set ''0123456789''"

definition is_space :: "char \<Rightarrow> bool" where
  \<comment> \<open>space, tab, newline, vertical tab, form feed, carriage return\<close>
  "is_space c \<longleftrightarrow> c \<in> {CHR '' '', CHR 0x09, CHR 0x0A, CHR 0x0B, CHR 0x0C, CHR 0x0D}"

definition is_idchar :: "char \<Rightarrow> bool" where
  \<comment> \<open>the characters of an SQL identifier or keyword\<close>
  "is_idchar c \<longleftrightarrow>
     c \<in> set ''abcdefghijklmnopqrstuvwxyzABCDEFGHIJKLMNOPQRSTUVWXYZ0123456789_$''
     \<or> (128::nat) \<le> of_char c"

text \<open>Python's \<^verbatim>\<open>sep.join(xs)\<close>.\<close>

fun join :: "string \<Rightarrow> string list \<Rightarrow> string" where
  "join sep [] = []"
| "join sep [x] = x"
| "join sep (x # y # ys) = x @ sep @ join sep (y # ys)"

text \<open>Python's \<^verbatim>\<open>needle in hay\<close> on strings.\<close>

fun starts_with :: "string \<Rightarrow> string \<Rightarrow> bool" where
  "starts_with s [] = True"
| "starts_with [] (n # ns) = False"
| "starts_with (c # cs) (n # ns) = (c = n \<and> starts_with cs ns)"

fun str_contains :: "string \<Rightarrow> string \<Rightarrow> bool" where
  "str_contains [] needle = (needle = [])"
| "str_contains (c # cs) needle = (starts_with (c # cs) needle \<or> str_contains cs needle)"

text \<open>
  The number of bytes of a string in UTF-8, which is how the engine measures a text:
  one byte for an ASCII character, two for each of the others. And the part of a string
  that a routine of the engine written for C strings sees: the characters before the
  first NUL.
\<close>

definition utf8_length :: "string \<Rightarrow> nat" where
  "utf8_length s = length s + length (filter (\<lambda>c. (128::nat) \<le> of_char c) s)"

definition c_string :: "string \<Rightarrow> string" where
  "c_string s = takeWhile (\<lambda>c. c \<noteq> CHR 0x00) s"

subsection \<open>The engine: the LIKE operator\<close>

text \<open>
  SQLite's \<^verbatim>\<open>text LIKE pattern\<close> with its defaults: \<^verbatim>\<open>%\<close> matches any run of
  characters, \<^verbatim>\<open>_\<close> matches one character, every other character matches itself,
  upper and lower case ASCII letters being equal; there is no escape character.
  The operator compares C strings: of a stored text it reads what comes before the
  first NUL (\<open>sql_like\<close>).
\<close>

fun like :: "string \<Rightarrow> string \<Rightarrow> bool" where
  "like [] s = (s = [])"
| "like (p # ps) [] = (p = CHR ''%'' \<and> like ps [])"
| "like (p # ps) (c # cs) =
     (if p = CHR ''%'' then like ps (c # cs) \<or> like (p # ps) cs
      else if p = CHR ''_'' then like ps cs
      else to_lower p = to_lower c \<and> like ps cs)"

definition sql_like :: "string \<Rightarrow> string \<Rightarrow> bool" where
  "sql_like pattern txt = like pattern (c_string txt)"

subsection \<open>The engine: reading the text of a SELECT\<close>

text \<open>
  \<^verbatim>\<open>get_by_tag\<close> splices the query tags into the text of its statement, so the engine
  has to read that text back. The scanner knows white space, identifiers, string
  literals in single quotes (a doubled quote inside a literal stands for one quote) and
  single other characters. It gives up (\<open>LexBeyond\<close>) at a character that starts a
  construct it does not know: a quoted identifier, a comment, the end of a statement.
  A literal still open at the end of the text is an unrecognised token, which the
  engine rejects whatever came before it (\<open>LexIllegal\<close>).
\<close>

datatype token = TId string | TStr string | TSym char

datatype lexstate =
    LOut             \<comment> \<open>between tokens\<close>
  | LId string       \<comment> \<open>inside an identifier\<close>
  | LStr string      \<comment> \<open>inside a string literal\<close>
  | LQuote string    \<comment> \<open>after a quote inside a literal: its end, or the first of two\<close>

datatype lexresult = LexTokens "token list" | LexIllegal | LexBeyond

definition beyond_char :: "char \<Rightarrow> bool" where
  "beyond_char c \<longleftrightarrow> c \<in> {CHR 0x22, CHR 0x60, CHR ''['', CHR '';'', CHR ''-'', CHR ''/''}"

fun scan_out :: "token list \<Rightarrow> char \<Rightarrow> (lexstate \<times> token list) option" where
  "scan_out ts c =
     (if is_space c then Some (LOut, ts)
      else if c = CHR 0x27 then Some (LStr [], ts)
      else if is_idchar c then Some (LId [c], ts)
      else if beyond_char c then None
      else Some (LOut, ts @ [TSym c]))"

fun scan :: "lexstate \<Rightarrow> token list \<Rightarrow> string \<Rightarrow> lexresult" where
  "scan LOut ts [] = LexTokens ts"
| "scan (LId a) ts [] = LexTokens (ts @ [TId a])"
| "scan (LStr a) ts [] = LexIllegal"
| "scan (LQuote a) ts [] = LexTokens (ts @ [TStr a])"
| "scan LOut ts (c # cs) =
     (case scan_out ts c of None \<Rightarrow> LexBeyond | Some (st, ts') \<Rightarrow> scan st ts' cs)"
| "scan (LId a) ts (c # cs) =
     (if is_idchar c then scan (LId (a @ [c])) ts cs
      else case scan_out (ts @ [TId a]) c of
             None \<Rightarrow> LexBeyond
           | Some (st, ts') \<Rightarrow> scan st ts' cs)"
| "scan (LStr a) ts (c # cs) =
     (if c = CHR 0x27 then scan (LQuote a) ts cs else scan (LStr (a @ [c])) ts cs)"
| "scan (LQuote a) ts (c # cs) =
     (if c = CHR 0x27 then scan (LStr (a @ [c])) ts cs
      else case scan_out (ts @ [TStr a]) c of
             None \<Rightarrow> LexBeyond
           | Some (st, ts') \<Rightarrow> scan st ts' cs)"

text \<open>
  The WHERE clauses the model reads are those made of \<^verbatim>\<open>tagscsv LIKE 'pattern'\<close>
  joined by \<^verbatim>\<open>AND\<close> and \<^verbatim>\<open>OR\<close>. \<^verbatim>\<open>AND\<close> binds more tightly than \<^verbatim>\<open>OR\<close>, so a clause
  is a disjunction of conjunctions of patterns. Keywords and column names are compared
  without regard to case.
\<close>

definition is_word :: "string \<Rightarrow> token \<Rightarrow> bool" where
  "is_word w t = (case t of TId a \<Rightarrow> map to_upper a = w | _ \<Rightarrow> False)"

fun parse_where :: "string list \<Rightarrow> string list list \<Rightarrow> token list \<Rightarrow> string list list option" where
  "parse_where cj dj (c # l # TStr p # rest) =
     (if is_word ''TAGSCSV'' c \<and> is_word ''LIKE'' l then
        (case rest of
           [] \<Rightarrow> Some (dj @ [cj @ [p]])
         | k # rest' \<Rightarrow>
             if is_word ''AND'' k then parse_where (cj @ [p]) dj rest'
             else if is_word ''OR'' k then parse_where [] (dj @ [cj @ [p]]) rest'
             else None)
      else None)"
| "parse_where cj dj ts = None"

fun parse_select :: "token list \<Rightarrow> string list list option" where
  "parse_select (s # TSym star # f # r # w # rest) =
     (if is_word ''SELECT'' s \<and> star = CHR ''*'' \<and> is_word ''FROM'' f
         \<and> is_word ''RESULTS'' r \<and> is_word ''WHERE'' w
      then parse_where [] [] rest else None)"
| "parse_select ts = None"

text \<open>
  The limits of the engine that such a statement can meet. Its text has at most
  \<open>max_sql_length\<close> bytes. The tree of the WHERE clause has at most \<open>max_expr_depth\<close>
  levels: a LIKE with its two operands has two, and \<^verbatim>\<open>AND\<close> and \<^verbatim>\<open>OR\<close>, which group
  to the left, put one level on top of the higher of their operands. The pattern of a
  LIKE has at most \<open>max_like_pattern_length\<close> bytes, which the engine checks when it
  evaluates that LIKE on a row.
\<close>

definition max_sql_length :: nat where
  "max_sql_length = 1000000000"

definition max_expr_depth :: nat where
  "max_expr_depth = 1000"

definition max_like_pattern_length :: nat where
  "max_like_pattern_length = 50000"

definition expr_depth :: "string list list \<Rightarrow> nat" where
  "expr_depth dj =
     (case dj of
        [] \<Rightarrow> 0
      | cj # rest \<Rightarrow> foldl (\<lambda>h c. max h (length c + 1) + 1) (length cj + 1) rest)"

text \<open>
  A row is tested from left to right, and an operand that cannot change the outcome is
  not evaluated: the conjunction stops at the first pattern that does not match, the
  disjunction at the first conjunction that holds. \<open>None\<close> is the error of a pattern
  that is too long.
\<close>

fun eval_conj :: "string list \<Rightarrow> string \<Rightarrow> bool option" where
  "eval_conj [] s = Some True"
| "eval_conj (p # ps) s =
     (if max_like_pattern_length < utf8_length p then None
      else if sql_like p s then eval_conj ps s
      else Some False)"

fun eval_where :: "string list list \<Rightarrow> string \<Rightarrow> bool option" where
  "eval_where [] s = Some False"
| "eval_where (cj # dj) s =
     (case eval_conj cj s of
        None \<Rightarrow> None
      | Some b \<Rightarrow> if b then Some True else eval_where dj s)"

subsection \<open>The engine: column affinity\<close>

text \<open>
  SQLite derives a column's affinity from the text of its declared type, and a text
  value stored in a column of numeric affinity is converted to a number when it reads
  as one. The declared types of the table are \<^verbatim>\<open>TEXT\<close>, \<^verbatim>\<open>FLOAT\<close> and \<^verbatim>\<open>JSON\<close>; the last
  one has numeric affinity. A converted value is kept as \<open>SNumeric\<close> with the literal it
  came from: the value is the number the literal denotes, no longer a text.
\<close>

datatype affinity = AffInteger | AffText | AffBlob | AffReal | AffNumeric

definition affinity_of :: "string \<Rightarrow> affinity" where
  "affinity_of decl =
     (let d = map to_upper decl in
      if str_contains d ''INT'' then AffInteger
      else if str_contains d ''CHAR'' \<or> str_contains d ''CLOB'' \<or> str_contains d ''TEXT''
        then AffText
      else if str_contains d ''BLOB'' \<or> d = [] then AffBlob
      else if str_contains d ''REAL'' \<or> str_contains d ''FLOA'' \<or> str_contains d ''DOUB''
        then AffReal
      else AffNumeric)"

definition looks_numeric :: "string \<Rightarrow> bool" where
  \<comment> \<open>white space, a sign, digits, a fraction, an exponent, white space\<close>
  "looks_numeric s =
     (let s1 = dropWhile is_space s;
          s2 = (case s1 of [] \<Rightarrow> [] | c # r \<Rightarrow> if c = CHR ''-'' \<or> c = CHR ''+'' then r else s1);
          ip = takeWhile is_digit s2;
          s3 = dropWhile is_digit s2;
          fp = (case s3 of [] \<Rightarrow> [] | c # r \<Rightarrow> if c = CHR ''.'' then takeWhile is_digit r else []);
          s4 = (case s3 of [] \<Rightarrow> [] | c # r \<Rightarrow> if c = CHR ''.'' then dropWhile is_digit r else s3);
          s5 = (case s4 of
                  [] \<Rightarrow> Some []
                | c # r \<Rightarrow>
                    if c = CHR ''e'' \<or> c = CHR ''E'' then
                      (let r' = (case r of [] \<Rightarrow> []
                                 | d # r'' \<Rightarrow> if d = CHR ''-'' \<or> d = CHR ''+'' then r'' else r)
                       in if takeWhile is_digit r' = [] then None
                          else Some (dropWhile is_digit r'))
                    else Some s4)
      in (ip \<noteq> [] \<or> fp \<noteq> []) \<and> (case s5 of None \<Rightarrow> False | Some t \<Rightarrow> dropWhile is_space t = []))"

datatype sqlval = SText string | SNumeric string

definition store_text :: "affinity \<Rightarrow> string \<Rightarrow> sqlval" where
  "store_text a s =
     (if (a = AffInteger \<or> a = AffReal \<or> a = AffNumeric) \<and> looks_numeric s
      then SNumeric s else SText s)"

subsection \<open>The engine: the table and its statements\<close>

text \<open>
  A database holds the table \<^verbatim>\<open>results\<close> or does not. The table is its declared
  columns and its rows in storage order, which is the order of the row ids. The rows
  are those of the schema the class declares; the statements on a table of another
  schema are \<open>Unmodelled\<close>. So is the insertion of a row whose texts come within a
  hundred bytes of \<open>max_length\<close>, the largest row the engine stores: whether such a row
  still fits depends on how the engine encodes it.
\<close>

record row =
  row_id :: int
  jobtext :: string
  tagscsv :: string
  date :: real
  results :: sqlval

record table =
  schema :: "(string \<times> string) list"
  rows :: "row list"

type_synonym database = "table option"

definition results_schema :: "(string \<times> string) list" where
  "results_schema =
     [(''id'', ''INTEGER PRIMARY KEY''), (''jobtext'', ''TEXT''), (''tagscsv'', ''TEXT''),
      (''date'', ''FLOAT''), (''results'', ''JSON'')]"

datatype statement =
    CreateTableIfNotExists "(string \<times> string) list"
      \<comment> \<open>\<^verbatim>\<open>CREATE TABLE IF NOT EXISTS results (...)\<close> with the column declarations\<close>
  | InsertInto string string real string
      \<comment> \<open>\<^verbatim>\<open>INSERT INTO results(jobtext, tagscsv, date, results) VALUES(?, ?, ?, ?)\<close>
          with the four bound values\<close>
  | SelectText string
      \<comment> \<open>a statement given as text, nothing bound\<close>
  | SelectSince real
      \<comment> \<open>\<^verbatim>\<open>SELECT * FROM results WHERE date > (?)\<close> with the bound value\<close>

fun max_id :: "row list \<Rightarrow> int option" where
  "max_id [] = None"
| "max_id (r # rs) =
     (case max_id rs of None \<Rightarrow> Some (row_id r) | Some m \<Rightarrow> Some (max (row_id r) m))"

text \<open>
  The id of a new row is one more than the largest id, and 1 in an empty table. When
  the largest id is the largest 64-bit integer the engine draws random numbers, at most
  a hundred of them, makes of each a candidate between 1 and \<open>2\<^sup>6\<^sup>2\<close>, and takes the first
  candidate that is not the id of a row; when all are in use the insertion fails. The
  numbers it would draw are a parameter here; the result says how many were drawn.
\<close>

primrec random_rowid :: "nat \<Rightarrow> (nat \<Rightarrow> int) \<Rightarrow> int list \<Rightarrow> int option \<times> nat" where
  "random_rowid 0 rnd used = (None, 0)"
| "random_rowid (Suc n) rnd used =
     (let v = rnd 0 mod 4611686018427387904 + 1
      in if v \<notin> set used then (Some v, 1)
         else (case random_rowid n (\<lambda>k. rnd (Suc k)) used of (r, d) \<Rightarrow> (r, Suc d)))"

definition new_rowid :: "(nat \<Rightarrow> int) \<Rightarrow> row list \<Rightarrow> int option \<times> nat" where
  "new_rowid rnd rs =
     (case max_id rs of
        None \<Rightarrow> (Some 1, 0)
      | Some m \<Rightarrow>
          if m < 9223372036854775807 then (Some (m + 1), 0)
          else random_rowid 100 rnd (map row_id rs))"

definition insert_row :: "row \<Rightarrow> row list \<Rightarrow> row list" where
  \<comment> \<open>the new row goes before the first row with a greater id\<close>
  "insert_row r rs =
     takeWhile (\<lambda>q. row_id q < row_id r) rs @ [r] @ dropWhile (\<lambda>q. row_id q < row_id r) rs"

definition max_length :: nat where
  "max_length = 1000000000"

definition column_affinity :: "table \<Rightarrow> string \<Rightarrow> affinity" where
  "column_affinity t c = (case map_of (schema t) c of None \<Rightarrow> AffBlob | Some decl \<Rightarrow> affinity_of decl)"

fun select_rows :: "string list list \<Rightarrow> row list \<Rightarrow> row list option" where
  "select_rows dj [] = Some []"
| "select_rows dj (r # rs) =
     (case eval_where dj (tagscsv r) of
        None \<Rightarrow> None
      | Some b \<Rightarrow>
          (case select_rows dj rs of
             None \<Rightarrow> None
           | Some out \<Rightarrow> Some (if b then r # out else out)))"

definition select_text :: "string \<Rightarrow> database \<Rightarrow> fault + row list" where
  "select_text txt db =
     (if CHR 0x00 \<in> set txt \<or> max_sql_length < utf8_length txt then Inl StorageFault
      else case scan LOut [] txt of
        LexIllegal \<Rightarrow> Inl StorageFault
      | LexBeyond \<Rightarrow> Inl Unmodelled
      | LexTokens ts \<Rightarrow>
          (case parse_select ts of
             None \<Rightarrow> Inl Unmodelled
           | Some dj \<Rightarrow>
               if max_expr_depth < expr_depth dj then Inl StorageFault
               else (case db of
                  None \<Rightarrow> Inl StorageFault
                | Some t \<Rightarrow>
                    if schema t \<noteq> results_schema then Inl Unmodelled
                    else (case select_rows dj (rows t) of
                            None \<Rightarrow> Inl StorageFault
                          | Some rs \<Rightarrow> Inr rs))))"

text \<open>
  A statement is run with the random numbers the engine would draw and the database of
  the connection; it gives a fault or the rows found and the database afterwards, and
  the number of random numbers drawn.
\<close>

fun sqlite_exec ::
  "statement \<Rightarrow> (nat \<Rightarrow> int) \<Rightarrow> database \<Rightarrow> (fault + row list \<times> database) \<times> nat" where
  "sqlite_exec (CreateTableIfNotExists cols) rnd db =
     (case db of
        None \<Rightarrow> (Inr ([], Some \<lparr>schema = cols, rows = []\<rparr>), 0)
      | Some t \<Rightarrow> (Inr ([], Some t), 0))"
| "sqlite_exec (InsertInto j g d r) rnd db =
     (case db of
        None \<Rightarrow> (Inl StorageFault, 0)
      | Some t \<Rightarrow>
          if schema t \<noteq> results_schema
             \<or> max_length < utf8_length j + utf8_length g + utf8_length r + 100
          then (Inl Unmodelled, 0)
          else (case new_rowid rnd (rows t) of
                  (None, k) \<Rightarrow> (Inl StorageFault, k)
                | (Some i, k) \<Rightarrow>
                    (Inr ([], Some (t\<lparr>rows := insert_row
                            \<lparr>row_id = i, jobtext = j, tagscsv = g, date = d,
                             results = store_text (column_affinity t ''results'') r\<rparr> (rows t)\<rparr>)),
                     k)))"
| "sqlite_exec (SelectText txt) rnd db =
     (case select_text txt db of Inl f \<Rightarrow> (Inl f, 0) | Inr rs \<Rightarrow> (Inr (rs, db), 0))"
| "sqlite_exec (SelectSince since) rnd db =
     (case db of
        None \<Rightarrow> (Inl StorageFault, 0)
      | Some t \<Rightarrow>
          if schema t \<noteq> results_schema then (Inl Unmodelled, 0)
          else (Inr (filter (\<lambda>r. date r > since) (rows t), db), 0))"

subsection \<open>The JSON encoder\<close>

text \<open>
  The values \<^verbatim>\<open>json.dumps\<close> is given: \<^verbatim>\<open>None\<close>, booleans, integers, strings, lists and
  dictionaries with string keys, and \<open>PObject\<close> for any object the encoder rejects.
  Floating-point values are outside the embedding. The encoder is the default one:
  \<^verbatim>\<open>", "\<close> between items, \<^verbatim>\<open>": "\<close> after a key, and every character outside the
  printable ASCII range escaped.
\<close>

datatype pyval =
    PNone
  | PBool bool
  | PInt int
  | PStr string
  | PList "pyval list"
  | PDict "(string \<times> pyval) list"
  | PObject

definition digit_char :: "nat \<Rightarrow> char" where
  "digit_char n = ''0123456789abcdef'' ! (n mod 16)"

fun digits_of :: "nat \<Rightarrow> string" where
  "digits_of n = (if n < 10 then [digit_char n] else digits_of (n div 10) @ [digit_char (n mod 10)])"

declare digits_of.simps [simp del]

definition repr_int :: "int \<Rightarrow> string" where
  "repr_int i = (if i < 0 then CHR ''-'' # digits_of (nat (- i)) else digits_of (nat i))"

definition escape_char :: "char \<Rightarrow> string" where
  "escape_char c =
     (if c = CHR 0x22 then [CHR 0x5C, CHR 0x22]
      else if c = CHR 0x5C then [CHR 0x5C, CHR 0x5C]
      else if c = CHR 0x0A then [CHR 0x5C, CHR ''n'']
      else if c = CHR 0x0D then [CHR 0x5C, CHR ''r'']
      else if c = CHR 0x09 then [CHR 0x5C, CHR ''t'']
      else if c = CHR 0x08 then [CHR 0x5C, CHR ''b'']
      else if c = CHR 0x0C then [CHR 0x5C, CHR ''f'']
      else if (32::nat) \<le> of_char c \<and> (of_char c :: nat) \<le> 126 then [c]
      else [CHR 0x5C, CHR ''u'', CHR ''0'', CHR ''0'',
            digit_char (of_char c div 16), digit_char (of_char c mod 16)])"

definition dumps_str :: "string \<Rightarrow> string" where
  "dumps_str s = CHR 0x22 # concat (map escape_char s) @ [CHR 0x22]"

fun dumps :: "pyval \<Rightarrow> string option"
  and dumps_list :: "pyval list \<Rightarrow> string list option"
  and dumps_items :: "(string \<times> pyval) list \<Rightarrow> string list option" where
  "dumps PNone = Some ''null''"
| "dumps (PBool b) = Some (if b then ''true'' else ''false'')"
| "dumps (PInt i) = Some (repr_int i)"
| "dumps (PStr s) = Some (dumps_str s)"
| "dumps (PList xs) =
     (case dumps_list xs of None \<Rightarrow> None | Some ss \<Rightarrow> Some (''['' @ join '', '' ss @ '']''))"
| "dumps (PDict kvs) =
     (case dumps_items kvs of None \<Rightarrow> None | Some ss \<Rightarrow> Some (''{'' @ join '', '' ss @ ''}''))"
| "dumps PObject = None"
| "dumps_list [] = Some []"
| "dumps_list (x # xs) =
     (case dumps x of
        None \<Rightarrow> None
      | Some s \<Rightarrow> (case dumps_list xs of None \<Rightarrow> None | Some ss \<Rightarrow> Some (s # ss)))"
| "dumps_items [] = Some []"
| "dumps_items ((k, v) # kvs) =
     (case dumps v of
        None \<Rightarrow> None
      | Some s \<Rightarrow>
          (case dumps_items kvs of
             None \<Rightarrow> None
           | Some ss \<Rightarrow> Some ((dumps_str k @ '': '' @ s) # ss)))"

subsection \<open>The JSON decoder\<close>

text \<open>
  \<^verbatim>\<open>json.loads\<close>, which a caller applies to the stored document. Values are scanned
  as the decoder does: white space is skipped around the structural characters, a
  string ends at its closing quote with the escapes decoded, a number is an optional
  sign and digits. A number with a fraction or an exponent and a \<^verbatim>\<open>\u\<close> escape beyond
  the 8-bit characters of the embedding have no value here: the decoder of the model
  gives \<open>None\<close> for them. The recursion runs on fuel, which \<open>loads\<close> sets to the length
  of the text.
\<close>

definition json_ws :: "char \<Rightarrow> bool" where
  "json_ws c \<longleftrightarrow> c \<in> {CHR '' '', CHR 0x09, CHR 0x0A, CHR 0x0D}"

definition skip_ws :: "string \<Rightarrow> string" where
  "skip_ws s = dropWhile json_ws s"

definition hex_val :: "char \<Rightarrow> nat option" where
  "hex_val c =
     (if is_digit c then Some (of_char c - 48)
      else if c \<in> set ''abcdef'' then Some (of_char c - 87)
      else if c \<in> set ''ABCDEF'' then Some (of_char c - 55)
      else None)"

definition unescape :: "char \<Rightarrow> char option" where
  \<comment> \<open>the character a backslash and this character stand for\<close>
  "unescape c =
     (if c = CHR 0x22 \<or> c = CHR 0x5C \<or> c = CHR ''/'' then Some c
      else if c = CHR ''b'' then Some (CHR 0x08)
      else if c = CHR ''f'' then Some (CHR 0x0C)
      else if c = CHR ''n'' then Some (CHR 0x0A)
      else if c = CHR ''r'' then Some (CHR 0x0D)
      else if c = CHR ''t'' then Some (CHR 0x09)
      else None)"

fun parse_string :: "string \<Rightarrow> string \<Rightarrow> (string \<times> string) option" where
  "parse_string acc [] = None"
| "parse_string acc (c # cs) =
     (if c = CHR 0x22 then Some (acc, cs)
      else if c = CHR 0x5C then
        (case cs of
           [] \<Rightarrow> None
         | e # r \<Rightarrow>
             if e = CHR ''u'' then
               (case r of
                  h1 # h2 # h3 # h4 # r' \<Rightarrow>
                    (case (hex_val h1, hex_val h2, hex_val h3, hex_val h4) of
                       (Some v1, Some v2, Some v3, Some v4) \<Rightarrow>
                         if v1 = 0 \<and> v2 = 0 then parse_string (acc @ [char_of (v3 * 16 + v4)]) r'
                         else None
                     | _ \<Rightarrow> None)
                | _ \<Rightarrow> None)
             else (case unescape e of None \<Rightarrow> None | Some x \<Rightarrow> parse_string (acc @ [x]) r))
      else if (of_char c :: nat) < 32 then None
      else parse_string (acc @ [c]) cs)"

definition digits_value :: "string \<Rightarrow> nat" where
  "digits_value ds = foldl (\<lambda>a c. 10 * a + (of_char c - 48)) 0 ds"

definition has_minus :: "string \<Rightarrow> bool" where
  "has_minus s = (case s of [] \<Rightarrow> False | c # r \<Rightarrow> c = CHR ''-'')"

definition int_digits :: "string \<Rightarrow> string" where
  \<comment> \<open>the digits of the integer part: a single zero, or digits that do not start with zero\<close>
  "int_digits s = (case s of [] \<Rightarrow> [] | c # r \<Rightarrow> if c = CHR ''0'' then [c] else takeWhile is_digit s)"

definition float_tail :: "string \<Rightarrow> bool" where
  \<comment> \<open>a fraction or an exponent follows: the number is a float\<close>
  "float_tail s =
     (case s of
        c # d # r \<Rightarrow>
          (c = CHR ''.'' \<and> is_digit d) \<or>
          ((c = CHR ''e'' \<or> c = CHR ''E'') \<and>
           (is_digit d \<or>
            ((d = CHR ''+'' \<or> d = CHR ''-'') \<and> (case r of [] \<Rightarrow> False | x # y \<Rightarrow> is_digit x))))
      | _ \<Rightarrow> False)"

definition parse_number :: "string \<Rightarrow> (pyval \<times> string) option" where
  "parse_number s =
     (let neg = has_minus s;
          s1 = (if neg then tl s else s);
          ds = int_digits s1;
          s2 = drop (length ds) s1
      in if ds = [] \<or> float_tail s2 then None
         else Some (PInt (if neg then - int (digits_value ds) else int (digits_value ds)), s2))"

fun dict_set :: "(string \<times> pyval) list \<Rightarrow> string \<Rightarrow> pyval \<Rightarrow> (string \<times> pyval) list" where
  "dict_set [] k v = [(k, v)]"
| "dict_set ((k', v') # kvs) k v = (if k' = k then (k, v) # kvs else (k', v') # dict_set kvs k v)"

primrec parse_elems ::
  "(string \<Rightarrow> (pyval \<times> string) option) \<Rightarrow> nat \<Rightarrow> pyval list \<Rightarrow> string
     \<Rightarrow> (pyval list \<times> string) option" where
  \<comment> \<open>the items of an array after its opening bracket, up to the closing one\<close>
  "parse_elems pv 0 acc s = None"
| "parse_elems pv (Suc n) acc s =
     (case pv s of
        None \<Rightarrow> None
      | Some (v, r) \<Rightarrow>
          (case skip_ws r of
             [] \<Rightarrow> None
           | d # r' \<Rightarrow>
               if d = CHR '','' then parse_elems pv n (acc @ [v]) (skip_ws r')
               else if d = CHR '']'' then Some (acc @ [v], r')
               else None))"

primrec parse_items ::
  "(string \<Rightarrow> (pyval \<times> string) option) \<Rightarrow> nat \<Rightarrow> (string \<times> pyval) list \<Rightarrow> string
     \<Rightarrow> ((string \<times> pyval) list \<times> string) option" where
  \<comment> \<open>the pairs of an object after its opening brace, up to the closing one\<close>
  "parse_items pv 0 acc s = None"
| "parse_items pv (Suc n) acc s =
     (case s of
        [] \<Rightarrow> None
      | q # cs \<Rightarrow>
          if q \<noteq> CHR 0x22 then None
          else (case parse_string [] cs of
             None \<Rightarrow> None
           | Some (k, r) \<Rightarrow>
               (case skip_ws r of
                  [] \<Rightarrow> None
                | d # r' \<Rightarrow>
                    if d \<noteq> CHR '':'' then None
                    else (case pv (skip_ws r') of
                       None \<Rightarrow> None
                     | Some (v, r'') \<Rightarrow>
                         (case skip_ws r'' of
                            [] \<Rightarrow> None
                          | e # r3 \<Rightarrow>
                              if e = CHR '','' then parse_items pv n (dict_set acc k v) (skip_ws r3)
                              else if e = CHR ''}'' then Some (dict_set acc k v, r3)
                              else None)))))"

primrec parse_value :: "nat \<Rightarrow> string \<Rightarrow> (pyval \<times> string) option" where
  "parse_value 0 s = None"
| "parse_value (Suc n) s =
     (case s of
        [] \<Rightarrow> None
      | c # cs \<Rightarrow>
          if c = CHR 0x22 then
            (case parse_string [] cs of None \<Rightarrow> None | Some (t, r) \<Rightarrow> Some (PStr t, r))
          else if c = CHR ''{'' then
            (case skip_ws cs of
               [] \<Rightarrow> None
             | d # r \<Rightarrow>
                 if d = CHR ''}'' then Some (PDict [], r)
                 else (case parse_items (parse_value n) n [] (d # r) of
                         None \<Rightarrow> None
                       | Some (kvs, r') \<Rightarrow> Some (PDict kvs, r')))
          else if c = CHR ''['' then
            (case skip_ws cs of
               [] \<Rightarrow> None
             | d # r \<Rightarrow>
                 if d = CHR '']'' then Some (PList [], r)
                 else (case parse_elems (parse_value n) n [] (d # r) of
                         None \<Rightarrow> None
                       | Some (xs, r') \<Rightarrow> Some (PList xs, r')))
          else if starts_with s ''null'' then Some (PNone, drop 4 s)
          else if starts_with s ''true'' then Some (PBool True, drop 4 s)
          else if starts_with s ''false'' then Some (PBool False, drop 5 s)
          else parse_number s)"

definition loads :: "string \<Rightarrow> pyval option" where
  "loads s =
     (case parse_value (length s) (skip_ws s) of
        None \<Rightarrow> None
      | Some (v, r) \<Rightarrow> if skip_ws r = [] then Some v else None)"

text \<open>
  The values the round trip is stated for: no object the encoder rejects and, in every
  dictionary, no key twice. The fuel that decoding the text of a value needs, and the
  characters a value can begin with or be followed by.
\<close>

fun json_value :: "pyval \<Rightarrow> bool"
  and json_values :: "pyval list \<Rightarrow> bool"
  and json_items :: "(string \<times> pyval) list \<Rightarrow> bool" where
  "json_value (PList xs) = json_values xs"
| "json_value (PDict kvs) = (distinct (map fst kvs) \<and> json_items kvs)"
| "json_value PObject = False"
| "json_value PNone = True"
| "json_value (PBool b) = True"
| "json_value (PInt i) = True"
| "json_value (PStr s) = True"
| "json_values [] = True"
| "json_values (x # xs) = (json_value x \<and> json_values xs)"
| "json_items [] = True"
| "json_items ((k, v) # kvs) = (json_value v \<and> json_items kvs)"

fun fuel_of :: "pyval \<Rightarrow> nat"
  and fuel_list :: "pyval list \<Rightarrow> nat"
  and fuel_items :: "(string \<times> pyval) list \<Rightarrow> nat" where
  \<comment> \<open>fuel that is enough to decode the text of a value\<close>
  "fuel_of (PList xs) = Suc (fuel_list xs)"
| "fuel_of (PDict kvs) = Suc (fuel_items kvs)"
| "fuel_of PObject = 1"
| "fuel_of PNone = 1"
| "fuel_of (PBool b) = 1"
| "fuel_of (PInt i) = 1"
| "fuel_of (PStr s) = 1"
| "fuel_list [] = 0"
| "fuel_list (x # xs) = Suc (fuel_of x + fuel_list xs)"
| "fuel_items [] = 0"
| "fuel_items ((k, v) # kvs) = Suc (fuel_of v + fuel_items kvs)"

definition value_end :: "string \<Rightarrow> bool" where
  "value_end rest = (case rest of [] \<Rightarrow> True | c # r \<Rightarrow> c = CHR '','' \<or> c = CHR '']'' \<or> c = CHR ''}'')"

definition value_start :: "char \<Rightarrow> bool" where
  "value_start c \<longleftrightarrow> c \<in> set ''{[ntf-0123456789'' \<or> c = CHR 0x22"

subsection \<open>The class\<close>

text \<open>
  The object is its three attributes. The world outside it is the database found at
  each path, the random numbers the engine has still to draw and, kept for the proofs
  only, the list of the statements that reached the engine, each with the path of its
  connection. Opening a connection always succeeds in the model.
\<close>

record wallaby =
  columns :: "(string \<times> string) list"
  sqlite_database_path :: string
  conn :: "string option"

record world =
  files :: "string \<Rightarrow> database"
  entropy :: "nat \<Rightarrow> int"
  accesses :: "(string \<times> statement) list"

definition cursor :: "wallaby \<Rightarrow> wallaby" where
  \<comment> \<open>\<^verbatim>\<open>self._conn = self._conn or sqlite3.connect(self._sqlite_database_path)\<close>\<close>
  "cursor w =
     (case conn w of
        None \<Rightarrow> w\<lparr>conn := Some (sqlite_database_path w)\<rparr>
      | Some c \<Rightarrow> w)"

definition conn_path :: "wallaby \<Rightarrow> string" where
  "conn_path w = (case conn w of None \<Rightarrow> sqlite_database_path w | Some c \<Rightarrow> c)"

definition execute :: "wallaby \<Rightarrow> world \<Rightarrow> statement \<Rightarrow> (fault + row list) \<times> wallaby \<times> world" where
  "execute w wd stmt =
     (let w' = cursor w;
          p = conn_path w';
          wd' = wd\<lparr>accesses := accesses wd @ [(p, stmt)]\<rparr>
      in case sqlite_exec stmt (entropy wd) (files wd p) of
           (Inl f, d) \<Rightarrow> (Inl f, w', wd'\<lparr>entropy := (\<lambda>k. entropy wd (k + d))\<rparr>)
         | (Inr (rs, db'), d) \<Rightarrow>
             (Inr rs, w', wd'\<lparr>files := (files wd)(p := db'), entropy := (\<lambda>k. entropy wd (k + d))\<rparr>))"

definition initialize :: "wallaby \<Rightarrow> world \<Rightarrow> (fault + bool) \<times> wallaby \<times> world" where
  "initialize w wd =
     (case execute w wd (CreateTableIfNotExists ((''id'', ''INTEGER PRIMARY KEY'') # columns w)) of
        (Inl f, w', wd') \<Rightarrow> (Inl f, w', wd')
      | (Inr rs, w', wd') \<Rightarrow> (Inr True, w', wd'))"

definition init :: "(string \<Rightarrow> string) \<Rightarrow> string \<Rightarrow> world \<Rightarrow> (fault + wallaby) \<times> world" where
  \<comment> \<open>\<^verbatim>\<open>__init__\<close>; the first argument stands for \<^verbatim>\<open>os.path.expanduser\<close>\<close>
  "init expanduser path wd =
     (let w = \<lparr>columns = [(''jobtext'', ''TEXT''), (''tagscsv'', ''TEXT''),
                          (''date'', ''FLOAT''), (''results'', ''JSON'')],
               sqlite_database_path = expanduser path,
               conn = None\<rparr>
      in case initialize w wd of
           (Inl f, w', wd') \<Rightarrow> (Inl f, wd')
         | (Inr b, w', wd') \<Rightarrow> (Inr w', wd'))"

definition tagscsv_of :: "string list option \<Rightarrow> string" where
  \<comment> \<open>\<^verbatim>\<open>"," + (",".join(tags) if tags else "") + ","\<close>\<close>
  "tagscsv_of tags =
     '','' @ (case tags of None \<Rightarrow> [] | Some ts \<Rightarrow> if ts \<noteq> [] then join '','' ts else []) @ '',''"

definition jobtext_of :: "string list \<Rightarrow> string option \<Rightarrow> string" where
  \<comment> \<open>\<^verbatim>\<open>jobtext or " ".join(sys.argv[:])\<close>\<close>
  "jobtext_of argv job =
     (case job of None \<Rightarrow> join '' '' argv | Some j \<Rightarrow> if j \<noteq> [] then j else join '' '' argv)"

definition wrap_payload :: "pyval \<Rightarrow> pyval" where
  \<comment> \<open>\<^verbatim>\<open>if isinstance(results, str): results = {"output": results}\<close>\<close>
  "wrap_payload payload = (case payload of PStr s \<Rightarrow> PDict [(''output'', PStr s)] | _ \<Rightarrow> payload)"

definition log_wallaby ::
  "string list \<Rightarrow> real \<Rightarrow> wallaby \<Rightarrow> world \<Rightarrow> pyval \<Rightarrow> string list option \<Rightarrow> string option
     \<Rightarrow> (fault + bool) \<times> wallaby \<times> world" where
  \<comment> \<open>\<^verbatim>\<open>log\<close>; the first two arguments stand for \<^verbatim>\<open>sys.argv\<close> and the value of \<^verbatim>\<open>time.time()\<close>\<close>
  "log_wallaby argv now w wd payload tags job =
     (let jt = jobtext_of argv job;
          csv = tagscsv_of tags;
          d = now
      in case dumps (wrap_payload payload) of
           None \<Rightarrow> (Inl SerializationFault, w, wd)
         | Some txt \<Rightarrow>
             (case execute w wd (InsertInto jt csv d txt) of
                (Inl f, w', wd') \<Rightarrow> (Inl f, w', wd')
              | (Inr rs, w', wd') \<Rightarrow> (Inr True, w', wd')))"

datatype tagarg = TagStr string | TagList "string list"

definition truthy :: "tagarg option \<Rightarrow> bool" where
  "truthy a = (case a of None \<Rightarrow> False | Some (TagStr s) \<Rightarrow> s \<noteq> [] | Some (TagList ts) \<Rightarrow> ts \<noteq> [])"

definition taglist_of :: "tagarg option \<Rightarrow> string list" where
  "taglist_of a = (case a of None \<Rightarrow> [] | Some (TagStr s) \<Rightarrow> [s] | Some (TagList ts) \<Rightarrow> ts)"

definition like_clause :: "string \<Rightarrow> string" where
  \<comment> \<open>\<^verbatim>\<open>f"tagscsv LIKE '%,{t},%'"\<close>\<close>
  "like_clause t = ''tagscsv LIKE '' @ [CHR 0x27] @ ''%,'' @ t @ '',%'' @ [CHR 0x27]"

definition select_by_tag_text :: "string \<Rightarrow> string list \<Rightarrow> string" where
  "select_by_tag_text set_operation taglist =
     [CHR 0x0A] @ ''            SELECT * FROM results WHERE ''
       @ join set_operation (map like_clause taglist)
       @ [CHR 0x0A] @ ''        ''"

definition get_by_tag ::
  "wallaby \<Rightarrow> world \<Rightarrow> tagarg option \<Rightarrow> tagarg option \<Rightarrow> (fault + row list) \<times> wallaby \<times> world" where
  "get_by_tag w wd all_of any_of =
     (case (if truthy all_of then Some '' AND ''
            else if truthy any_of then Some '' OR ''
            else None) of
        None \<Rightarrow> (Inl InvalidQueryFault, w, wd)
      | Some set_operation \<Rightarrow>
          (let taglist = taglist_of (if truthy all_of then all_of else any_of)
           in execute w wd (SelectText (select_by_tag_text set_operation taglist))))"

definition get_results_since ::
  "wallaby \<Rightarrow> world \<Rightarrow> real \<Rightarrow> (fault + row list) \<times> wallaby \<times> world" where
  "get_results_since w wd since = execute w wd (SelectSince since)"

text \<open>
  The keyword \<^verbatim>\<open>as_dataframe\<close> of the two queries only changes how the rows are
  presented; the model returns the rows. \<^verbatim>\<open>raw_query\<close> runs any statement whatever and
  is not one of the operations the properties are about.
\<close>

subsection \<open>Sequences of operations\<close>

text \<open>
  The three core operations as values, what each one lets the caller observe, and the
  states an object and its world can be in: those the constructor leaves at a path that
  held no table, and those an operation leads to from there.
\<close>

datatype operation =
    Log "string list" real pyval "string list option" "string option"
  | ByTag "tagarg option" "tagarg option"
  | Since real

datatype observation = Logged "fault + bool" | Found "fault + row list"

fun perform :: "operation \<Rightarrow> wallaby \<Rightarrow> world \<Rightarrow> observation \<times> wallaby \<times> world" where
  "perform (Log argv now payload tags job) w wd =
     (case log_wallaby argv now w wd payload tags job of (r, w', wd') \<Rightarrow> (Logged r, w', wd'))"
| "perform (ByTag all_of any_of) w wd =
     (case get_by_tag w wd all_of any_of of (r, w', wd') \<Rightarrow> (Found r, w', wd'))"
| "perform (Since since) w wd =
     (case get_results_since w wd since of (r, w', wd') \<Rightarrow> (Found r, w', wd'))"

fun run :: "operation list \<Rightarrow> wallaby \<Rightarrow> world \<Rightarrow> observation list \<times> wallaby \<times> world" where
  "run [] w wd = ([], w, wd)"
| "run (x # xs) w wd =
     (case perform x w wd of
        (ob, w', wd') \<Rightarrow> (case run xs w' wd' of (obs, w'', wd'') \<Rightarrow> (ob # obs, w'', wd'')))"

inductive reachable :: "wallaby \<Rightarrow> world \<Rightarrow> bool" where
  constructed:
    "files wd0 (expanduser path) = None \<Longrightarrow> init expanduser path wd0 = (Inr w, wd)
       \<Longrightarrow> reachable w wd"
| performed:
    "reachable w wd \<Longrightarrow> perform x w wd = (ob, w', wd') \<Longrightarrow> reachable w' wd'"

subsection \<open>Notions used in the properties\<close>

definition stored_rows :: "wallaby \<Rightarrow> world \<Rightarrow> row list" where
  \<comment> \<open>the rows of the table the object is bound to, none when there is no table\<close>
  "stored_rows w wd = (case files wd (conn_path w) of None \<Rightarrow> [] | Some t \<Rightarrow> rows t)"

definition new_row ::
  "int \<Rightarrow> string list \<Rightarrow> real \<Rightarrow> string \<Rightarrow> string list option \<Rightarrow> string option \<Rightarrow> row" where
  "new_row i argv now txt tags job =
     \<lparr>row_id = i, jobtext = jobtext_of argv job, tagscsv = tagscsv_of tags, date = now,
      results = store_text AffNumeric txt\<rparr>"

definition provisioned :: "wallaby \<Rightarrow> world \<Rightarrow> bool" where
  \<comment> \<open>the table exists at the path of the object, with the schema the class declares\<close>
  "provisioned w wd \<longleftrightarrow>
     (case files wd (conn_path w) of None \<Rightarrow> False | Some tb \<Rightarrow> schema tb = results_schema)"

definition accessed :: "wallaby \<Rightarrow> world \<Rightarrow> statement \<Rightarrow> world" where
  \<comment> \<open>the world after a statement that changed no database\<close>
  "accessed w wd stmt = wd\<lparr>accesses := accesses wd @ [(conn_path w, stmt)]\<rparr>"

definition like_pattern :: "string \<Rightarrow> string" where
  \<comment> \<open>the pattern inside the quotes of \<open>like_clause\<close>\<close>
  "like_pattern t = ''%,'' @ t @ '',%''"

fun clause_tokens :: "string \<Rightarrow> string list \<Rightarrow> token list" where
  "clause_tokens k [] = []"
| "clause_tokens k [t] = [TId ''tagscsv'', TId ''LIKE'', TStr (like_pattern t)]"
| "clause_tokens k (t # u # us) =
     [TId ''tagscsv'', TId ''LIKE'', TStr (like_pattern t), TId k] @ clause_tokens k (u # us)"

definition quote_free :: "string \<Rightarrow> bool" where
  \<comment> \<open>a tag that stays inside the quotes it is spliced into\<close>
  "quote_free t \<longleftrightarrow> list_all (\<lambda>c. c \<noteq> CHR 0x27 \<and> c \<noteq> CHR 0x00) t"

definition plain_tag :: "string \<Rightarrow> bool" where
  \<comment> \<open>a tag with no quote, no NUL and neither of the two wildcards of LIKE\<close>
  "plain_tag t \<longleftrightarrow>
     list_all (\<lambda>c. c \<noteq> CHR 0x27 \<and> c \<noteq> CHR 0x00 \<and> c \<noteq> CHR ''%'' \<and> c \<noteq> CHR ''_'') t"

definition tag_matches :: "string \<Rightarrow> string \<Rightarrow> bool" where
  \<comment> \<open>the stored string contains the tag between two commas, ASCII letters compared
      without regard to case\<close>
  "tag_matches t s = str_contains (map to_lower s) (map to_lower ('','' @ t @ '',''))"

definition framed :: "string \<Rightarrow> bool" where
  \<comment> \<open>at least two characters, the first and the last of them commas\<close>
  "framed s = (case s of c # d # r \<Rightarrow> c = CHR '','' \<and> last (d # r) = CHR '','' | _ \<Rightarrow> False)"

definition outside_clean :: "string \<Rightarrow> bool" where
  \<comment> \<open>text that, outside a literal, opens no literal and nothing the scanner gives up at\<close>
  "outside_clean b \<longleftrightarrow> list_all (\<lambda>c. c \<noteq> CHR 0x27 \<and> c \<noteq> CHR 0x00 \<and> \<not> beyond_char c) b"

definition within_limits :: "string list \<Rightarrow> bool" where
  \<comment> \<open>few enough tags for the depth of the clause, each short enough for its pattern\<close>
  "within_limits tags \<longleftrightarrow>
     length tags < max_expr_depth
     \<and> list_all (\<lambda>t. utf8_length t + 4 \<le> max_like_pattern_length) tags"

definition two_commas :: "string \<Rightarrow> bool" where
  "two_commas s \<longleftrightarrow> 2 \<le> length (filter (\<lambda>c. c = CHR '','') s)"

definition opened_at :: "string \<Rightarrow> wallaby" where
  \<comment> \<open>the object the constructor returns for an expanded path\<close>
  "opened_at p =
     \<lparr>columns = [(''jobtext'', ''TEXT''), (''tagscsv'', ''TEXT''),
                 (''date'', ''FLOAT''), (''results'', ''JSON'')],
      sqlite_database_path = p, conn = Some p\<rparr>"

definition structured :: "pyval \<Rightarrow> bool" where
  \<comment> \<open>a payload of the declared type: a dictionary or a string\<close>
  "structured p = (case p of PDict kvs \<Rightarrow> True | PStr s \<Rightarrow> True | _ \<Rightarrow> False)"

subsection \<open>Stores used as examples\<close>

text \<open>A store as the constructor leaves it at a path where there was no database.\<close>

definition empty_world :: world where
  "empty_world = \<lparr>files = (\<lambda>p. None), entropy = (\<lambda>k. 0), accesses = []\<rparr>"

definition fresh_wallaby :: wallaby where
  "fresh_wallaby =
     \<lparr>columns = [(''jobtext'', ''TEXT''), (''tagscsv'', ''TEXT''),
                 (''date'', ''FLOAT''), (''results'', ''JSON'')],
      sqlite_database_path = ''wallaby.db'', conn = Some ''wallaby.db''\<rparr>"

definition fresh_world :: world where
  "fresh_world =
     \<lparr>files = (\<lambda>p. None)(''wallaby.db'' := Some \<lparr>schema = results_schema, rows = []\<rparr>),
      entropy = (\<lambda>k. 0),
      accesses = [(''wallaby.db'', CreateTableIfNotExists results_schema)]\<rparr>"

definition hello_text :: string where
  "hello_text = ''{'' @ [CHR 0x22] @ ''output'' @ [CHR 0x22] @ '': '' @ [CHR 0x22] @ ''hello'' @ [CHR 0x22] @ ''}''"

definition demo_row :: row where
  "demo_row = \<lparr>row_id = 1, jobtext = ''prog'', tagscsv = '',foo,bar,'', date = 100, results = SText hello_text\<rparr>"

definition demo_world :: world where
  "demo_world =
     \<lparr>files = (\<lambda>p. None)(''wallaby.db'' := Some \<lparr>schema = results_schema, rows = [demo_row]\<rparr>),
      entropy = (\<lambda>k. 0),
      accesses = [(''wallaby.db'', CreateTableIfNotExists results_schema),
                  (''wallaby.db'', InsertInto ''prog'' '',foo,bar,'' 100 hello_text)]\<rparr>"

definition row_at :: "int \<Rightarrow> real \<Rightarrow> row" where
  "row_at i d = \<lparr>row_id = i, jobtext = ''prog'', tagscsv = '',,'', date = d, results = SText ''{}''\<rparr>"

definition timed_table :: table where
  "timed_table = \<lparr>schema = results_schema, rows = [row_at 1 10, row_at 2 20, row_at 3 30]\<rparr>"

definition timed_world :: world where
  "timed_world = \<lparr>files = (\<lambda>p. None)(''wallaby.db'' := Some timed_table), entropy = (\<lambda>k. 0), accesses = []\<rparr>"

definition comma_world :: world where
  "comma_world =
     \<lparr>files = (\<lambda>p. None)(''wallaby.db'' := Some \<lparr>schema = results_schema,
         rows = [\<lparr>row_id = 1, jobtext = ''prog'', tagscsv = '',a,b,'', date = 100, results = SText hello_text\<rparr>]\<rparr>),
      entropy = (\<lambda>k. 0),
      accesses = [(''wallaby.db'', CreateTableIfNotExists results_schema),
                  (''wallaby.db'', InsertInto ''prog'' '',a,b,'' 100 hello_text)]\<rparr>"

text \<open>
  A store whose one row has the largest id there is, with the random numbers the engine
  is about to draw; and a store with the row that \<^verbatim>\<open>log\<close> writes for the tags
  \<^verbatim>\<open>["a\0", "foo"]\<close>, the first of which ends with a NUL.
\<close>

definition full_world :: world where
  "full_world =
     \<lparr>files = (\<lambda>p. None)(''wallaby.db'' := Some \<lparr>schema = results_schema,
         rows = [row_at 9223372036854775807 100]\<rparr>),
      entropy = (\<lambda>k. 4115363206929036272),
      accesses = []\<rparr>"

definition nul_row :: row where
  "nul_row = \<lparr>row_id = 1, jobtext = ''prog'', tagscsv = '',a'' @ [CHR 0x00] @ '',foo,'',
              date = 100, results = SText hello_text\<rparr>"

definition nul_world :: world where
  "nul_world =
     \<lparr>files = (\<lambda>p. None)(''wallaby.db'' := Some \<lparr>schema = results_schema, rows = [nul_row]\<rparr>),
      entropy = (\<lambda>k. 0),
      accesses = [(''wallaby.db'', CreateTableIfNotExists results_schema),
                  (''wallaby.db'', InsertInto ''prog'' ('',a'' @ [CHR 0x00] @ '',foo,'') 100 hello_text)]\<rparr>"

section \<open>Properties\<close>

subsection \<open>What a successful log does\<close>

text \<open>
  When \<^verbatim>\<open>log\<close> returns success the table was there, the payload had a JSON text, the
  engine found an id, and the world differs by one row, put into that table at its
  place by id; conversely these conditions make it succeed when the texts are not too
  long. The example stores are the ones the program itself produces.
\<close>

lemma conn_path_cursor: "conn_path (cursor w) = conn_path w"
  by (simp add: conn_path_def cursor_def split: option.splits)

lemma affinity_of_JSON: "affinity_of ''JSON'' = AffNumeric"
  by (simp add: affinity_of_def to_upper_def)

lemma column_affinity_results: "schema t = results_schema \<Longrightarrow> column_affinity t ''results'' = AffNumeric"
  by (simp add: column_affinity_def results_schema_def affinity_of_JSON)

lemma utf8_length_append [simp]: "utf8_length (a @ b) = utf8_length a + utf8_length b"
  by (simp add: utf8_length_def)

lemma utf8_length_Nil [simp]: "utf8_length [] = 0"
  by (simp add: utf8_length_def)

lemma utf8_length_Cons: "utf8_length (c # s) = (if (128::nat) \<le> of_char c then 2 else 1) + utf8_length s"
  by (simp add: utf8_length_def)

lemma utf8_length_le: "utf8_length s \<le> 2 * length s"
  by (induction s) (simp_all add: utf8_length_Cons)

lemma init_fresh: "init (\<lambda>p. p) ''wallaby.db'' empty_world = (Inr fresh_wallaby, fresh_world)"
  by (simp add: init_def initialize_def execute_def cursor_def conn_path_def empty_world_def
      fresh_wallaby_def fresh_world_def results_schema_def Let_def)

lemma log_wallaby_Inr:
  assumes "log_wallaby argv now w wd payload tags job = (Inr b, w', wd')"
  shows "\<exists>t i k txt. files wd (conn_path w) = Some t \<and> schema t = results_schema
           \<and> new_rowid (entropy wd) (rows t) = (Some i, k) \<and> dumps (wrap_payload payload) = Some txt
           \<and> b = True \<and> w' = cursor w
           \<and> files wd' = (files wd)(conn_path w :=
                 Some (t\<lparr>rows := insert_row (new_row i argv now txt tags job) (rows t)\<rparr>))"
  using assms
  by (auto simp: log_wallaby_def execute_def Let_def conn_path_cursor new_row_def
      column_affinity_results
      split: option.splits sum.splits prod.splits if_splits)

lemma log_wallaby_returns:
  assumes "files wd (conn_path w) = Some t" "schema t = results_schema"
    "new_rowid (entropy wd) (rows t) = (Some i, k)" "dumps (wrap_payload payload) = Some txt"
    "utf8_length (jobtext_of argv job) + utf8_length (tagscsv_of tags) + utf8_length txt + 100
       \<le> max_length"
  shows "log_wallaby argv now w wd payload tags job =
     (Inr True, cursor w,
      wd\<lparr>accesses := accesses wd @ [(conn_path w, InsertInto (jobtext_of argv job) (tagscsv_of tags) now txt)],
         files := (files wd)(conn_path w :=
                 Some (t\<lparr>rows := insert_row (new_row i argv now txt tags job) (rows t)\<rparr>)),
         entropy := (\<lambda>n. entropy wd (n + k))\<rparr>)"
  using assms
  by (auto simp: log_wallaby_def execute_def Let_def conn_path_cursor new_row_def
      column_affinity_results
      split: option.splits sum.splits prod.splits if_splits)

lemma log_wallaby_stored_rows:
  assumes "log_wallaby argv now w wd payload tags job = (Inr b, w', wd')"
  shows "\<exists>i k txt. new_rowid (entropy wd) (stored_rows w wd) = (Some i, k)
           \<and> dumps (wrap_payload payload) = Some txt
           \<and> stored_rows w' wd' = insert_row (new_row i argv now txt tags job) (stored_rows w wd)"
  using log_wallaby_Inr [OF assms]
  by (auto simp: stored_rows_def conn_path_cursor)

lemma insert_row_last: "\<forall>q \<in> set rs. row_id q < row_id r \<Longrightarrow> insert_row r rs = rs @ [r]"
  by (simp add: insert_row_def)

lemma insert_row_Nil: "insert_row r [] = [r]"
  by (simp add: insert_row_def)

lemma set_insert_row: "set (insert_row r rs) = insert r (set rs)"
proof -
  have "set (takeWhile (\<lambda>q. row_id q < row_id r) rs @ dropWhile (\<lambda>q. row_id q < row_id r) rs) = set rs"
    by (simp only: takeWhile_dropWhile_id)
  then show ?thesis unfolding insert_row_def by (simp only: set_append) auto
qed

lemma length_insert_row: "length (insert_row r rs) = Suc (length rs)"
proof -
  have "length (takeWhile (\<lambda>q. row_id q < row_id r) rs @ dropWhile (\<lambda>q. row_id q < row_id r) rs) = length rs"
    by (simp only: takeWhile_dropWhile_id)
  then show ?thesis unfolding insert_row_def by (simp only: length_append) simp
qed

lemma subseq_insert_row: "subseq rs (insert_row r rs)"
proof -
  let ?a = "takeWhile (\<lambda>q. row_id q < row_id r) rs"
  let ?b = "dropWhile (\<lambda>q. row_id q < row_id r) rs"
  have "subseq ?b ([r] @ ?b)" by (rule list_emb_append2) simp
  then have "subseq (?a @ ?b) (?a @ [r] @ ?b)"
    by (intro list_emb_append_mono) simp_all
  then show ?thesis by (simp only: insert_row_def takeWhile_dropWhile_id)
qed

lemma join_comma_delimited: "ts \<noteq> [] \<Longrightarrow> join '','' ts @ '','' = concat (map (\<lambda>t. t @ '','') ts)"
  by (induction "'',''" ts rule: join.induct) auto

lemma tagscsv_of_delimited:
  "tagscsv_of tags =
     (case tags of
        None \<Rightarrow> '',,''
      | Some [] \<Rightarrow> '',,''
      | Some (t # ts) \<Rightarrow> '','' @ concat (map (\<lambda>x. x @ '','') (t # ts)))"
  using join_comma_delimited [of "the tags"]
  by (auto simp: tagscsv_of_def split: option.splits list.splits)

lemma dumps_hello:
  "dumps (wrap_payload (PStr ''hello'')) =
     Some (''{'' @ [CHR 0x22] @ ''output'' @ [CHR 0x22] @ '': '' @ [CHR 0x22] @ ''hello'' @ [CHR 0x22] @ ''}'')"
  by (simp add: wrap_payload_def dumps_str_def escape_char_def)

lemma new_rowid_Nil: "new_rowid rnd [] = (Some 1, 0)"
  by (simp add: new_rowid_def)

lemma log_fresh:
  assumes "dumps (wrap_payload payload) = Some txt"
    and "utf8_length (jobtext_of argv job) + utf8_length (tagscsv_of tags) + utf8_length txt + 100
       \<le> max_length"
  shows "log_wallaby argv now fresh_wallaby fresh_world payload tags job =
     (Inr True, fresh_wallaby,
      fresh_world\<lparr>accesses := accesses fresh_world @
           [(''wallaby.db'', InsertInto (jobtext_of argv job) (tagscsv_of tags) now txt)],
         files := (files fresh_world)(''wallaby.db'' :=
                 Some \<lparr>schema = results_schema, rows = [new_row 1 argv now txt tags job]\<rparr>)\<rparr>)"
proof -
  have "files fresh_world (conn_path fresh_wallaby) = Some \<lparr>schema = results_schema, rows = []\<rparr>"
    by (simp add: fresh_world_def fresh_wallaby_def conn_path_def)
  moreover have "new_rowid (entropy fresh_world) (rows \<lparr>schema = results_schema, rows = []\<rparr>) = (Some 1, 0)"
    by (simp add: new_rowid_Nil)
  ultimately show ?thesis
    using log_wallaby_returns [of fresh_world fresh_wallaby "\<lparr>schema = results_schema, rows = []\<rparr>" 1 0
        payload "txt" argv job tags now] assms
    by (simp add: cursor_def fresh_wallaby_def conn_path_def insert_row_Nil fresh_world_def)
qed

lemma looks_numeric_brace: "\<not> looks_numeric (CHR ''{'' # s)"
  by (simp add: looks_numeric_def is_space_def is_digit_def)

lemma log_demo:
  "log_wallaby [''prog''] 100 fresh_wallaby fresh_world (PStr ''hello'') (Some [''foo'', ''bar'']) None
     = (Inr True, fresh_wallaby, demo_world)"
proof -
  have "dumps (wrap_payload (PStr ''hello'')) = Some hello_text"
    by (simp add: wrap_payload_def dumps_str_def escape_char_def hello_text_def)
  moreover have "utf8_length (jobtext_of [''prog''] None) + utf8_length (tagscsv_of (Some [''foo'', ''bar'']))
      + utf8_length hello_text + 100 \<le> max_length"
    by (simp add: jobtext_of_def tagscsv_of_def hello_text_def utf8_length_def max_length_def)
  ultimately show ?thesis
    using log_fresh [of "PStr ''hello''" hello_text "[''prog'']" None "Some [''foo'', ''bar'']" 100]
    by (simp add: demo_world_def fresh_world_def new_row_def demo_row_def jobtext_of_def
        tagscsv_of_def store_text_def hello_text_def looks_numeric_brace)
qed

lemma stored_rows_demo: "stored_rows fresh_wallaby demo_world = [demo_row]"
  by (simp add: stored_rows_def demo_world_def fresh_wallaby_def conn_path_def)

subsection \<open>The stored tag string\<close>

text \<open>
  C5. When \<^verbatim>\<open>log\<close> succeeds, the table is the table before with one row put in, and
  that row holds the tags framed by commas, in the order given and with duplicates
  kept: a comma, then each tag followed by a comma. For an empty or omitted tag list
  the stored string is two commas.
\<close>

theorem log_stores_delimited_tags:
  assumes "log_wallaby argv now w wd payload tags job = (Inr True, w', wd')"
  shows "\<exists>r. stored_rows w' wd' = insert_row r (stored_rows w wd)
           \<and> tagscsv r =
               (case tags of
                  None \<Rightarrow> '',,''
                | Some [] \<Rightarrow> '',,''
                | Some (t # ts) \<Rightarrow> '','' @ concat (map (\<lambda>x. x @ '','') (t # ts)))"
  using log_wallaby_stored_rows [OF assms] tagscsv_of_delimited [of tags]
  by (auto simp: new_row_def)

theorem log_stores_delimited_tags_witness:
  "\<exists>w' wd'. log_wallaby [''prog''] 100 fresh_wallaby fresh_world (PStr ''hello'')
               (Some [''foo'', ''bar'', ''foo'']) None = (Inr True, w', wd')
     \<and> (\<exists>r. stored_rows w' wd' = insert_row r (stored_rows fresh_wallaby fresh_world)
            \<and> stored_rows w' wd' = [r]
            \<and> tagscsv r = '',foo,bar,foo,'')"
proof -
  have "utf8_length (jobtext_of [''prog''] None) + utf8_length (tagscsv_of (Some [''foo'', ''bar'', ''foo'']))
      + utf8_length hello_text + 100 \<le> max_length"
    by (simp add: jobtext_of_def tagscsv_of_def hello_text_def utf8_length_def max_length_def)
  then obtain wd' where run: "log_wallaby [''prog''] 100 fresh_wallaby fresh_world (PStr ''hello'')
               (Some [''foo'', ''bar'', ''foo'']) None = (Inr True, fresh_wallaby, wd')"
    using log_fresh [of "PStr ''hello''" hello_text "[''prog'']" None "Some [''foo'', ''bar'', ''foo'']" 100]
      dumps_hello by (simp add: hello_text_def)
  have e: "stored_rows fresh_wallaby fresh_world = []"
    by (simp add: stored_rows_def fresh_world_def fresh_wallaby_def conn_path_def)
  from log_stores_delimited_tags [OF run] run show ?thesis by (simp add: e insert_row_Nil)
qed

subsection \<open>One new row, with a new id\<close>

lemma max_id_None: "max_id rs = None \<longleftrightarrow> rs = []"
  by (cases rs) (auto split: option.splits)

lemma max_id_bound: "max_id rs = Some m \<Longrightarrow> q \<in> set rs \<Longrightarrow> row_id q \<le> m"
  by (induction rs arbitrary: m) (auto simp: max_id_None split: option.splits)

lemma max_id_member: "max_id rs = Some m \<Longrightarrow> \<exists>q \<in> set rs. row_id q = m"
  by (induction rs arbitrary: m) (auto simp: max_id_None max_def split: option.splits if_splits)

lemma random_rowid_unused: "random_rowid n rnd used = (Some i, k) \<Longrightarrow> i \<notin> set used"
  by (induction n arbitrary: rnd k) (auto simp: Let_def split: if_splits prod.splits)

lemma random_rowid_first:
  "0 < n \<Longrightarrow> rnd 0 mod 4611686018427387904 + 1 \<notin> set used \<Longrightarrow>
     random_rowid n rnd used = (Some (rnd 0 mod 4611686018427387904 + 1), 1)"
  by (cases n) (simp_all add: Let_def)

lemma new_rowid_unused: "new_rowid rnd rs = (Some i, k) \<Longrightarrow> q \<in> set rs \<Longrightarrow> row_id q \<noteq> i"
proof -
  assume a: "new_rowid rnd rs = (Some i, k)" and q: "q \<in> set rs"
  then obtain m where m: "max_id rs = Some m" by (cases "max_id rs") (auto simp: max_id_None)
  show ?thesis
  proof (cases "m < 9223372036854775807")
    case True
    with a m have "i = m + 1" by (simp add: new_rowid_def)
    with max_id_bound [OF m q] show ?thesis by simp
  next
    case False
    with a m have "random_rowid 100 rnd (map row_id rs) = (Some i, k)" by (simp add: new_rowid_def)
    from random_rowid_unused [OF this] q show ?thesis by auto
  qed
qed

lemma new_rowid_greater:
  assumes "new_rowid rnd rs = (Some i, k)" and "\<forall>q \<in> set rs. row_id q < 9223372036854775807"
    and "q \<in> set rs"
  shows "row_id q < i"
proof -
  from assms(3) obtain m where m: "max_id rs = Some m" by (cases "max_id rs") (auto simp: max_id_None)
  from max_id_member [OF m] assms(2) have "m < 9223372036854775807" by auto
  with assms(1) m have "i = m + 1" by (simp add: new_rowid_def)
  with max_id_bound [OF m assms(3)] show ?thesis by simp
qed

text \<open>
  C3, as amended. When \<^verbatim>\<open>log\<close> returns success, the table is the table before with
  exactly one row put in, at its place by id, and the id of that row is the id of no row
  that was there. When every id that was there is below the largest 64-bit integer, the
  new row comes after the rows that were there and its id is greater than the id of each
  of them.
\<close>

theorem log_adds_one_row_with_new_id:
  assumes "log_wallaby argv now w wd payload tags job = (Inr True, w', wd')"
  shows "\<exists>r. stored_rows w' wd' = insert_row r (stored_rows w wd)
           \<and> length (stored_rows w' wd') = length (stored_rows w wd) + 1
           \<and> (\<forall>q \<in> set (stored_rows w wd). row_id q \<noteq> row_id r)
           \<and> ((\<forall>q \<in> set (stored_rows w wd). row_id q < 9223372036854775807) \<longrightarrow>
                stored_rows w' wd' = stored_rows w wd @ [r]
                \<and> (\<forall>q \<in> set (stored_rows w wd). row_id q < row_id r))"
proof -
  from log_wallaby_stored_rows [OF assms] obtain i k t where
    i: "new_rowid (entropy wd) (stored_rows w wd) = (Some i, k)"
    and r: "stored_rows w' wd' = insert_row (new_row i argv now t tags job) (stored_rows w wd)"
    by blast
  let ?r = "new_row i argv now t tags job"
  have id: "row_id ?r = i" by (simp add: new_row_def)
  have 1: "length (stored_rows w' wd') = length (stored_rows w wd) + 1"
    by (simp add: r length_insert_row)
  have 2: "\<forall>q \<in> set (stored_rows w wd). row_id q \<noteq> row_id ?r"
    using new_rowid_unused [OF i] by (simp add: id)
  have 3: "stored_rows w' wd' = stored_rows w wd @ [?r] \<and> (\<forall>q \<in> set (stored_rows w wd). row_id q < row_id ?r)"
    if small: "\<forall>q \<in> set (stored_rows w wd). row_id q < 9223372036854775807"
  proof -
    have "\<forall>q \<in> set (stored_rows w wd). row_id q < row_id ?r"
      using new_rowid_greater [OF i small] by (simp add: id)
    then show ?thesis using r by (simp add: insert_row_last)
  qed
  from r 1 2 3 show ?thesis by blast
qed

theorem log_adds_one_row_with_new_id_witness:
  "\<exists>w' wd'. log_wallaby [''prog''] 200 fresh_wallaby demo_world (PStr ''again'') None None
               = (Inr True, w', wd')
     \<and> (\<exists>r. stored_rows w' wd' = [demo_row, r] \<and> row_id demo_row < row_id r)"
proof -
  have "files demo_world (conn_path fresh_wallaby) = Some \<lparr>schema = results_schema, rows = [demo_row]\<rparr>"
    by (simp add: demo_world_def fresh_wallaby_def conn_path_def)
  moreover have "new_rowid (entropy demo_world) (rows \<lparr>schema = results_schema, rows = [demo_row]\<rparr>) = (Some 2, 0)"
    by (simp add: new_rowid_def demo_row_def)
  moreover obtain t where t: "dumps (wrap_payload (PStr ''again'')) = Some t" "length t = 19"
    by (simp add: wrap_payload_def dumps_str_def escape_char_def)
  moreover have "utf8_length (jobtext_of [''prog''] None) + utf8_length (tagscsv_of None)
      + utf8_length t + 100 \<le> max_length"
    using utf8_length_le [of t] t(2)
    by (simp add: jobtext_of_def tagscsv_of_def utf8_length_def max_length_def)
  ultimately obtain wd' where run:
    "log_wallaby [''prog''] 200 fresh_wallaby demo_world (PStr ''again'') None None
       = (Inr True, cursor fresh_wallaby, wd')"
    using log_wallaby_returns [of demo_world fresh_wallaby _ 2 0 "PStr ''again''" t "[''prog'']" None None 200]
    by simp
  have small: "\<forall>q \<in> set (stored_rows fresh_wallaby demo_world). row_id q < 9223372036854775807"
    by (simp add: stored_rows_demo demo_row_def)
  from log_adds_one_row_with_new_id [OF run] small run show ?thesis
    by (auto simp: stored_rows_demo)
qed

text \<open>
  The claim as written fails when the largest id is the largest 64-bit integer: the
  engine then takes an unused id at random, here one that is smaller, and the new row
  comes before the row that was there.
\<close>

theorem log_random_id_counterexample:
  "fst (log_wallaby [''prog''] 200 fresh_wallaby full_world (PStr ''again'') None None) = Inr True
   \<and> map row_id (stored_rows fresh_wallaby full_world) = [9223372036854775807]
   \<and> map row_id (stored_rows
        (fst (snd (log_wallaby [''prog''] 200 fresh_wallaby full_world (PStr ''again'') None None)))
        (snd (snd (log_wallaby [''prog''] 200 fresh_wallaby full_world (PStr ''again'') None None))))
       = [4115363206929036273, 9223372036854775807]"
proof -
  let ?tb = "\<lparr>schema = results_schema, rows = [row_at 9223372036854775807 100]\<rparr>"
  have f: "files full_world (conn_path fresh_wallaby) = Some ?tb"
    by (simp add: full_world_def fresh_wallaby_def conn_path_def)
  have "random_rowid 100 (entropy full_world) (map row_id (rows ?tb)) = (Some 4115363206929036273, 1)"
    using random_rowid_first [of 100 "entropy full_world" "map row_id (rows ?tb)"]
    by (simp add: full_world_def row_at_def)
  then have n: "new_rowid (entropy full_world) (rows ?tb) = (Some 4115363206929036273, 1)"
    by (simp add: new_rowid_def row_at_def)
  obtain t where t: "dumps (wrap_payload (PStr ''again'')) = Some t" "length t = 19"
    by (simp add: wrap_payload_def dumps_str_def escape_char_def)
  have u: "utf8_length (jobtext_of [''prog''] None) + utf8_length (tagscsv_of None)
      + utf8_length t + 100 \<le> max_length"
    using utf8_length_le [of t] t(2)
    by (simp add: jobtext_of_def tagscsv_of_def utf8_length_def max_length_def)
  have s: "schema ?tb = results_schema" by simp
  note run = log_wallaby_returns [OF f s n t(1) u, of 200]
  have before: "map row_id (stored_rows fresh_wallaby full_world) = [9223372036854775807]"
    by (simp add: stored_rows_def f row_at_def)
  have after: "map row_id (stored_rows
        (fst (snd (log_wallaby [''prog''] 200 fresh_wallaby full_world (PStr ''again'') None None)))
        (snd (snd (log_wallaby [''prog''] 200 fresh_wallaby full_world (PStr ''again'') None None))))
       = [4115363206929036273, 9223372036854775807]"
    by (simp add: run stored_rows_def conn_path_cursor insert_row_def new_row_def row_at_def)
  from before after show ?thesis by (simp add: run)
qed

subsection \<open>Rows since a timestamp\<close>

lemma execute_files_select:
  "files (snd (snd (execute w wd (SelectText t)))) = files wd"
  "files (snd (snd (execute w wd (SelectSince s)))) = files wd"
  by (auto simp: execute_def Let_def split: sum.splits prod.splits option.splits)

lemma rows_since_filter:
  assumes "files wd (conn_path w) = Some t" and "schema t = results_schema"
  shows "fst (get_results_since w wd since) = Inr (filter (\<lambda>r. since < date r) (rows t))"
  using assms by (simp add: get_results_since_def execute_def Let_def conn_path_cursor)

text \<open>
  C4. On a provisioned table \<^verbatim>\<open>get_results_since\<close> returns the rows whose date is
  strictly greater than the timestamp given, in storage order, and changes no database.
  A row whose date equals the timestamp is left out.
\<close>

theorem get_results_since_strictly_later:
  assumes "files wd (conn_path w) = Some t" and "schema t = results_schema"
  shows "fst (get_results_since w wd since) = Inr (filter (\<lambda>r. since < date r) (rows t))
         \<and> files (snd (snd (get_results_since w wd since))) = files wd"
  using assms
  by (simp add: get_results_since_def execute_files_select)
     (simp add: execute_def Let_def conn_path_cursor)

theorem get_results_since_strictly_later_witness:
  "fst (get_results_since fresh_wallaby timed_world 10) = Inr [row_at 2 20, row_at 3 30]
   \<and> files (snd (snd (get_results_since fresh_wallaby timed_world 10))) = files timed_world"
proof -
  have t: "files timed_world (conn_path fresh_wallaby) = Some timed_table"
    by (simp add: timed_world_def fresh_wallaby_def conn_path_def)
  have s: "schema timed_table = results_schema" by (simp add: timed_table_def)
  from get_results_since_strictly_later [OF t s, of 10] show ?thesis
    by (simp add: timed_table_def row_at_def)
qed

subsection \<open>Reading back the statement of get_by_tag\<close>

text \<open>
  For tags without a quote the scanner finds in the text exactly the tokens the
  program meant to write, and the clause is the conjunction, or the disjunction, of one
  LIKE per tag.
\<close>

lemma scan_LStr_body:
  "CHR 0x27 \<notin> set body \<Longrightarrow> scan (LStr a) ts (body @ rest) = scan (LStr (a @ body)) ts rest"
  by (induction body arbitrary: a) auto

lemma scan_like_clause:
  assumes "CHR 0x27 \<notin> set t"
  shows "scan LOut ts (like_clause t @ rest) =
         scan (LQuote (like_pattern t)) (ts @ [TId ''tagscsv'', TId ''LIKE'']) rest"
proof -
  have "scan LOut ts (like_clause t @ rest) =
        scan (LStr []) (ts @ [TId ''tagscsv'', TId ''LIKE'']) (like_pattern t @ CHR 0x27 # rest)"
    by (simp add: like_clause_def like_pattern_def is_space_def is_idchar_def)
  also have "\<dots> = scan (LStr (like_pattern t)) (ts @ [TId ''tagscsv'', TId ''LIKE'']) (CHR 0x27 # rest)"
    using assms scan_LStr_body [of "like_pattern t" "[]"] by (simp add: like_pattern_def)
  finally show ?thesis by simp
qed

lemma scan_join:
  assumes sep: "\<And>p ts rest. scan (LQuote p) ts (sep @ rest) = scan LOut (ts @ [TStr p, TId k]) rest"
    and "\<forall>t \<in> set tags. CHR 0x27 \<notin> set t" and "tags \<noteq> []"
  shows "scan LOut ts (join sep (map like_clause tags) @ [CHR 0x0A] @ ''        '') =
         LexTokens (ts @ clause_tokens k tags)"
  using assms(2,3)
proof (induction tags arbitrary: ts rule: induct_list012)
  case 1
  then show ?case by simp
next
  case (2 t)
  then show ?case by (simp add: scan_like_clause is_space_def is_idchar_def)
next
  case (3 t u us)
  have "scan LOut ts (join sep (map like_clause (t # u # us)) @ [CHR 0x0A] @ ''        '') =
        scan (LQuote (like_pattern t)) (ts @ [TId ''tagscsv'', TId ''LIKE''])
          (sep @ (join sep (map like_clause (u # us)) @ [CHR 0x0A] @ ''        ''))"
    using "3.prems" by (simp add: scan_like_clause)
  also have "\<dots> = scan LOut (ts @ [TId ''tagscsv'', TId ''LIKE'', TStr (like_pattern t), TId k])
                     (join sep (map like_clause (u # us)) @ [CHR 0x0A] @ ''        '')"
    by (simp only: sep) simp
  also have "\<dots> = LexTokens ((ts @ [TId ''tagscsv'', TId ''LIKE'', TStr (like_pattern t), TId k])
                     @ clause_tokens k (u # us))"
    using "3.prems" by (intro "3.IH"(2)) auto
  finally show ?case by simp
qed

lemma is_word_simps:
  "is_word ''TAGSCSV'' (TId ''tagscsv'')" "is_word ''LIKE'' (TId ''LIKE'')"
  "is_word ''AND'' (TId ''AND'')" "is_word ''OR'' (TId ''OR'')" "\<not> is_word ''AND'' (TId ''OR'')"
  "is_word ''SELECT'' (TId ''SELECT'')" "is_word ''FROM'' (TId ''FROM'')"
  "is_word ''RESULTS'' (TId ''results'')" "is_word ''WHERE'' (TId ''WHERE'')"
  by (simp_all add: is_word_def to_upper_def)

lemma parse_where_AND:
  "tags \<noteq> [] \<Longrightarrow> parse_where cj dj (clause_tokens ''AND'' tags) = Some (dj @ [cj @ map like_pattern tags])"
  by (induction "''AND''" tags arbitrary: cj rule: clause_tokens.induct)
     (simp_all add: is_word_simps)

lemma parse_where_OR:
  "tags \<noteq> [] \<Longrightarrow> parse_where cj dj (clause_tokens ''OR'' tags) =
     Some (dj @ [cj @ [like_pattern (hd tags)]] @ map (\<lambda>t. [like_pattern t]) (tl tags))"
  by (induction "''OR''" tags arbitrary: cj dj rule: clause_tokens.induct)
     (simp_all add: is_word_simps)

lemma scan_select_by_tag_text:
  assumes sep: "\<And>p ts rest. scan (LQuote p) ts (sep @ rest) = scan LOut (ts @ [TStr p, TId k]) rest"
    and "\<forall>t \<in> set tags. CHR 0x27 \<notin> set t" and "tags \<noteq> []"
  shows "scan LOut [] (select_by_tag_text sep tags) =
     LexTokens ([TId ''SELECT'', TSym (CHR ''*''), TId ''FROM'', TId ''results'', TId ''WHERE'']
                @ clause_tokens k tags)"
proof -
  have "scan LOut [] (select_by_tag_text sep tags) =
        scan LOut [TId ''SELECT'', TSym (CHR ''*''), TId ''FROM'', TId ''results'', TId ''WHERE'']
          (join sep (map like_clause tags) @ [CHR 0x0A] @ ''        '')"
    unfolding select_by_tag_text_def by (simp add: is_space_def is_idchar_def beyond_char_def)
  then show ?thesis using scan_join [OF assms] by simp
qed

lemma parse_select_clause:
  "parse_select ([TId ''SELECT'', TSym (CHR ''*''), TId ''FROM'', TId ''results'', TId ''WHERE''] @ ts)
     = parse_where [] [] ts"
  by (simp add: is_word_simps)

lemma no_nul_select_by_tag_text:
  assumes "\<forall>t \<in> set tags. CHR 0x00 \<notin> set t" "CHR 0x00 \<notin> set sep"
  shows "CHR 0x00 \<notin> set (select_by_tag_text sep tags)"
proof -
  have "CHR 0x00 \<notin> set (join sep (map like_clause tags))"
    using assms by (induction sep tags rule: join.induct) (auto simp: like_clause_def)
  then show ?thesis by (simp add: select_by_tag_text_def)
qed


subsection \<open>LIKE on a pattern without wildcards\<close>

text \<open>
  A pattern \<^verbatim>\<open>%literal%\<close> whose literal has no wildcard matches the strings that
  contain the literal, letters compared without regard to case.
\<close>

lemma starts_with_take: "starts_with h n \<longleftrightarrow> length n \<le> length h \<and> take (length n) h = n"
  by (induction h n rule: starts_with.induct) auto

lemma ex_le_Suc: "(\<exists>k \<le> Suc n. P k) \<longleftrightarrow> (P 0 \<or> (\<exists>k \<le> n. P (Suc k)))"
proof
  assume "\<exists>k \<le> Suc n. P k"
  then obtain k where k: "k \<le> Suc n" "P k" by blast
  then show "P 0 \<or> (\<exists>k \<le> n. P (Suc k))" by (cases k) auto
next
  assume "P 0 \<or> (\<exists>k \<le> n. P (Suc k))"
  then show "\<exists>k \<le> Suc n. P k" by (auto intro: exI [of _ 0])
qed

lemma str_contains_drop: "str_contains h n \<longleftrightarrow> (\<exists>k \<le> length h. starts_with (drop k h) n)"
proof (induction h)
  case Nil
  then show ?case by (cases n) auto
next
  case (Cons c cs)
  then show ?case by (simp add: ex_le_Suc)
qed

lemma like_percent: "like (CHR ''%'' # ps) s \<longleftrightarrow> (\<exists>k \<le> length s. like ps (drop k s))"
proof (induction s)
  case Nil
  then show ?case by simp
next
  case (Cons c cs)
  then show ?case by (simp add: ex_le_Suc)
qed

lemma like_only_percent: "like ''%'' s"
  using like_percent [of "[]" s] by auto

lemma like_literal_prefix:
  assumes "CHR ''%'' \<notin> set p" "CHR ''_'' \<notin> set p"
  shows "like (p @ q) s \<longleftrightarrow>
     length p \<le> length s \<and> map to_lower (take (length p) s) = map to_lower p
       \<and> like q (drop (length p) s)"
  using assms
proof (induction p arbitrary: s)
  case Nil
  then show ?case by simp
next
  case (Cons a p)
  then show ?case by (cases s) auto
qed

lemma like_pattern_contains:
  assumes "CHR ''%'' \<notin> set t" "CHR ''_'' \<notin> set t"
  shows "like (like_pattern t) s \<longleftrightarrow>
         str_contains (map to_lower s) (map to_lower ('','' @ t @ '',''))"
proof -
  let ?lit = "'','' @ t @ '',''"
  have wf: "CHR ''%'' \<notin> set ?lit" "CHR ''_'' \<notin> set ?lit" using assms by auto
  have "like (like_pattern t) s \<longleftrightarrow> (\<exists>k \<le> length s. like (?lit @ ''%'') (drop k s))"
    using like_percent [of "?lit @ ''%''" s] by (simp add: like_pattern_def)
  also have "\<dots> \<longleftrightarrow> (\<exists>k \<le> length s. length ?lit \<le> length (drop k s)
        \<and> map to_lower (take (length ?lit) (drop k s)) = map to_lower ?lit)"
    using like_literal_prefix [OF wf, of "''%''"] like_only_percent by simp
  also have "\<dots> \<longleftrightarrow> (\<exists>k \<le> length (map to_lower s).
        starts_with (drop k (map to_lower s)) (map to_lower ?lit))"
    by (simp add: starts_with_take take_map drop_map)
  finally show ?thesis by (simp only: str_contains_drop)
qed


subsection \<open>The rows get_by_tag returns\<close>

text \<open>
  Within the limits of the engine, a query on tags without a quote returns the rows
  whose tag string every pattern matches, or some pattern matches. With a thousand
  tags or more the clause is too deep, and the engine refuses the statement.
\<close>

lemma execute_SelectText:
  "execute w wd (SelectText t) =
     (select_text t (files wd (conn_path w)), cursor w, accessed w wd (SelectText t))"
  by (cases "select_text t (files wd (conn_path w))")
     (simp_all add: execute_def Let_def conn_path_cursor accessed_def)

lemma scan_sep_AND:
  "scan (LQuote p) ts ('' AND '' @ rest) = scan LOut (ts @ [TStr p, TId ''AND'']) rest"
  by (simp add: is_space_def is_idchar_def)

lemma scan_sep_OR:
  "scan (LQuote p) ts ('' OR '' @ rest) = scan LOut (ts @ [TStr p, TId ''OR'']) rest"
  by (simp add: is_space_def is_idchar_def)

lemma eval_conj_short:
  "\<forall>p \<in> set ps. utf8_length p \<le> max_like_pattern_length \<Longrightarrow>
     eval_conj ps s = Some (list_all (\<lambda>p. sql_like p s) ps)"
  by (induction ps) auto

lemma eval_where_short:
  "\<forall>cj \<in> set dj. \<forall>p \<in> set cj. utf8_length p \<le> max_like_pattern_length \<Longrightarrow>
     eval_where dj s = Some (list_ex (list_all (\<lambda>p. sql_like p s)) dj)"
  by (induction dj) (auto simp: eval_conj_short)

lemma select_rows_short:
  "\<forall>cj \<in> set dj. \<forall>p \<in> set cj. utf8_length p \<le> max_like_pattern_length \<Longrightarrow>
     select_rows dj rs = Some (filter (\<lambda>r. list_ex (list_all (\<lambda>p. sql_like p (tagscsv r))) dj) rs)"
  by (induction rs) (auto simp: eval_where_short)

lemma utf8_length_like_pattern: "utf8_length (like_pattern t) = utf8_length t + 4"
  by (simp add: like_pattern_def utf8_length_def)

lemma utf8_length_like_clause: "utf8_length (like_clause t) = utf8_length t + 19"
  by (simp add: like_clause_def utf8_length_def)

lemma utf8_length_join:
  "\<forall>x \<in> set xs. utf8_length x \<le> b \<Longrightarrow> utf8_length (join sep xs) \<le> length xs * (b + utf8_length sep)"
proof (induction sep xs rule: join.induct)
  case (1 sep)
  then show ?case by simp
next
  case (2 sep x)
  then show ?case by simp
next
  case (3 sep x y ys)
  then have "utf8_length (join sep (y # ys)) \<le> length (y # ys) * (b + utf8_length sep)"
    and "utf8_length x \<le> b" by simp_all
  then show ?case by simp
qed

lemma utf8_length_select_by_tag_text:
  assumes "within_limits tags" and "utf8_length sep \<le> 5"
  shows "utf8_length (select_by_tag_text sep tags) \<le> max_sql_length"
proof -
  have "\<forall>x \<in> set (map like_clause tags). utf8_length x \<le> 50015"
    using assms(1)
    by (auto simp: within_limits_def list_all_iff utf8_length_like_clause max_like_pattern_length_def)
  from utf8_length_join [OF this, of sep]
  have "utf8_length (join sep (map like_clause tags)) \<le> length tags * (50015 + utf8_length sep)"
    by simp
  also have "\<dots> \<le> 1000 * 50020"
    using assms by (intro mult_le_mono) (simp_all add: within_limits_def max_expr_depth_def)
  finally show ?thesis
    by (simp add: select_by_tag_text_def max_sql_length_def utf8_length_def)
qed

lemma foldl_depth_singletons:
  "2 \<le> h \<Longrightarrow> foldl (\<lambda>h c. max h (length c + 1) + 1) h (map (\<lambda>t. [f t]) ts) = h + length ts"
  by (induction ts arbitrary: h) simp_all

lemma expr_depth_AND: "expr_depth [map like_pattern tags] = length tags + 1"
  by (simp add: expr_depth_def)

lemma expr_depth_OR:
  "tags \<noteq> [] \<Longrightarrow> expr_depth ([[like_pattern (hd tags)]] @ map (\<lambda>t. [like_pattern t]) (tl tags)) = length tags + 1"
  using foldl_depth_singletons [of "Suc (Suc 0)" like_pattern "tl tags"]
  by (cases tags) (simp_all add: expr_depth_def)

lemma select_by_tag_text_parsed:
  assumes "\<forall>t \<in> set tags. quote_free t" and "tags \<noteq> []"
    and "utf8_length (select_by_tag_text sep tags) \<le> max_sql_length"
    and "\<And>p ts rest. scan (LQuote p) ts (sep @ rest) = scan LOut (ts @ [TStr p, TId k]) rest"
    and "CHR 0x00 \<notin> set sep"
    and "parse_where [] [] (clause_tokens k tags) = Some dj"
  shows "select_text (select_by_tag_text sep tags) db =
     (if max_expr_depth < expr_depth dj then Inl StorageFault
      else case db of
             None \<Rightarrow> Inl StorageFault
           | Some t \<Rightarrow>
               if schema t \<noteq> results_schema then Inl Unmodelled
               else (case select_rows dj (rows t) of None \<Rightarrow> Inl StorageFault | Some rs \<Rightarrow> Inr rs))"
proof -
  have q: "\<forall>t \<in> set tags. CHR 0x27 \<notin> set t" and n: "\<forall>t \<in> set tags. CHR 0x00 \<notin> set t"
    using assms(1) by (auto simp: quote_free_def list_all_iff)
  have "CHR 0x00 \<notin> set (select_by_tag_text sep tags)"
    using no_nul_select_by_tag_text [OF n assms(5)] by simp
  moreover have "scan LOut [] (select_by_tag_text sep tags) =
     LexTokens ([TId ''SELECT'', TSym (CHR ''*''), TId ''FROM'', TId ''results'', TId ''WHERE'']
                @ clause_tokens k tags)"
    using scan_select_by_tag_text [of sep k, OF assms(4) q assms(2)] .
  moreover have "parse_select ([TId ''SELECT'', TSym (CHR ''*''), TId ''FROM'', TId ''results'', TId ''WHERE'']
                @ clause_tokens k tags) = Some dj"
    using assms(6) by (simp only: parse_select_clause)
  ultimately show ?thesis
    using assms(3) by (simp add: select_text_def)
qed

lemma select_text_AND:
  assumes "\<forall>t \<in> set tags. quote_free t" and "tags \<noteq> []" and "within_limits tags"
    and "schema tb = results_schema"
  shows "select_text (select_by_tag_text '' AND '' tags) (Some tb) =
         Inr (filter (\<lambda>r. list_all (\<lambda>t. sql_like (like_pattern t) (tagscsv r)) tags) (rows tb))"
proof -
  have len: "utf8_length (select_by_tag_text '' AND '' tags) \<le> max_sql_length"
    using assms(3) by (intro utf8_length_select_by_tag_text) (simp_all add: utf8_length_def)
  have p: "parse_where [] [] (clause_tokens ''AND'' tags) = Some [map like_pattern tags]"
    using parse_where_AND [OF assms(2), of "[]" "[]"] by simp
  have short: "\<forall>cj \<in> set [map like_pattern tags]. \<forall>p \<in> set cj. utf8_length p \<le> max_like_pattern_length"
    using assms(3) by (auto simp: within_limits_def list_all_iff utf8_length_like_pattern)
  have depth: "\<not> max_expr_depth < expr_depth [map like_pattern tags]"
    using assms(3) by (simp add: expr_depth_AND within_limits_def)
  have "list_all (\<lambda>p. sql_like p s) (map like_pattern tags) = list_all (\<lambda>t. sql_like (like_pattern t) s) tags" for s
    by (simp add: list_all_iff)
  then show ?thesis
    using select_by_tag_text_parsed [OF assms(1,2) len scan_sep_AND _ p, of "Some tb"]
      select_rows_short [OF short, of "rows tb"] depth assms(4)
    by simp
qed

lemma select_text_OR:
  assumes "\<forall>t \<in> set tags. quote_free t" and "tags \<noteq> []" and "within_limits tags"
    and "schema tb = results_schema"
  shows "select_text (select_by_tag_text '' OR '' tags) (Some tb) =
         Inr (filter (\<lambda>r. list_ex (\<lambda>t. sql_like (like_pattern t) (tagscsv r)) tags) (rows tb))"
proof -
  let ?dj = "[[like_pattern (hd tags)]] @ map (\<lambda>t. [like_pattern t]) (tl tags)"
  have len: "utf8_length (select_by_tag_text '' OR '' tags) \<le> max_sql_length"
    using assms(3) by (intro utf8_length_select_by_tag_text) (simp_all add: utf8_length_def)
  have p: "parse_where [] [] (clause_tokens ''OR'' tags) = Some ?dj"
    using parse_where_OR [OF assms(2), of "[]" "[]"] by simp
  have dj: "?dj = map (\<lambda>t. [like_pattern t]) tags"
    using assms(2) by (cases tags) simp_all
  have short: "\<forall>cj \<in> set ?dj. \<forall>p \<in> set cj. utf8_length p \<le> max_like_pattern_length"
    using assms(3) unfolding dj by (auto simp: within_limits_def list_all_iff utf8_length_like_pattern)
  have depth: "\<not> max_expr_depth < expr_depth ?dj"
    using assms(3) expr_depth_OR [OF assms(2)] by (simp add: within_limits_def)
  have "list_ex (list_all (\<lambda>p. sql_like p s)) ?dj = list_ex (\<lambda>t. sql_like (like_pattern t) s) tags" for s
    unfolding dj by (simp add: list_ex_iff)
  then show ?thesis
    using select_by_tag_text_parsed [OF assms(1,2) len scan_sep_OR _ p, of "Some tb"]
      select_rows_short [OF short, of "rows tb"] depth assms(4)
    by simp
qed

lemma truthy_taglist: "truthy a \<Longrightarrow> taglist_of a \<noteq> []"
  by (auto simp: truthy_def taglist_of_def split: option.splits tagarg.splits)

lemma get_by_tag_all_of:
  assumes "truthy all_of" and "\<forall>t \<in> set (taglist_of all_of). quote_free t"
    and "within_limits (taglist_of all_of)"
    and "files wd (conn_path w) = Some tb" and "schema tb = results_schema"
  shows "get_by_tag w wd all_of any_of =
     (Inr (filter (\<lambda>r. list_all (\<lambda>t. sql_like (like_pattern t) (tagscsv r)) (taglist_of all_of)) (rows tb)),
      cursor w, accessed w wd (SelectText (select_by_tag_text '' AND '' (taglist_of all_of))))"
  using assms select_text_AND [of "taglist_of all_of" tb] truthy_taglist [of all_of]
  by (simp add: get_by_tag_def execute_SelectText Let_def)

lemma get_by_tag_any_of:
  assumes "\<not> truthy all_of" and "truthy any_of" and "\<forall>t \<in> set (taglist_of any_of). quote_free t"
    and "within_limits (taglist_of any_of)"
    and "files wd (conn_path w) = Some tb" and "schema tb = results_schema"
  shows "get_by_tag w wd all_of any_of =
     (Inr (filter (\<lambda>r. list_ex (\<lambda>t. sql_like (like_pattern t) (tagscsv r)) (taglist_of any_of)) (rows tb)),
      cursor w, accessed w wd (SelectText (select_by_tag_text '' OR '' (taglist_of any_of))))"
  using assms select_text_OR [of "taglist_of any_of" tb] truthy_taglist [of any_of]
  by (simp add: get_by_tag_def execute_SelectText Let_def)

lemma get_by_tag_too_many_tags:
  assumes "\<forall>t \<in> set tags. quote_free t" and "max_expr_depth \<le> length tags"
  shows "fst (get_by_tag w wd (Some (TagList tags)) None) = Inl StorageFault"
    and "fst (get_by_tag w wd None (Some (TagList tags))) = Inl StorageFault"
proof -
  have ne: "tags \<noteq> []" using assms(2) by (auto simp: max_expr_depth_def)
  have tr: "truthy (Some (TagList tags))" "\<not> truthy None" using ne by (simp_all add: truthy_def)
  have a: "select_text (select_by_tag_text '' AND '' tags) db = Inl StorageFault" for db
  proof (cases "utf8_length (select_by_tag_text '' AND '' tags) \<le> max_sql_length")
    case True
    have p: "parse_where [] [] (clause_tokens ''AND'' tags) = Some [map like_pattern tags]"
      using parse_where_AND [OF ne, of "[]" "[]"] by simp
    show ?thesis
      using select_by_tag_text_parsed [OF assms(1) ne True scan_sep_AND _ p, of db] assms(2)
      by (simp add: expr_depth_AND)
  next
    case False
    then show ?thesis by (simp add: select_text_def)
  qed
  have o: "select_text (select_by_tag_text '' OR '' tags) db = Inl StorageFault" for db
  proof (cases "utf8_length (select_by_tag_text '' OR '' tags) \<le> max_sql_length")
    case True
    have p: "parse_where [] [] (clause_tokens ''OR'' tags) =
        Some ([[like_pattern (hd tags)]] @ map (\<lambda>t. [like_pattern t]) (tl tags))"
      using parse_where_OR [OF ne, of "[]" "[]"] by simp
    show ?thesis
      using select_by_tag_text_parsed [OF assms(1) ne True scan_sep_OR _ p, of db] assms(2)
        expr_depth_OR [OF ne]
      by simp
  next
    case False
    then show ?thesis by (simp add: select_text_def)
  qed
  show "fst (get_by_tag w wd (Some (TagList tags)) None) = Inl StorageFault"
    using tr a by (simp add: get_by_tag_def execute_SelectText Let_def taglist_of_def)
  show "fst (get_by_tag w wd None (Some (TagList tags))) = Inl StorageFault"
    using tr o by (simp add: get_by_tag_def execute_SelectText Let_def taglist_of_def)
qed

subsection \<open>Tag queries on tags without metacharacters\<close>

text \<open>
  For query tags that contain no quote, no NUL and neither \<^verbatim>\<open>%\<close> nor \<^verbatim>\<open>_\<close>, fewer
  than a thousand of them and none longer than the pattern of a LIKE may be: a tag
  matches a row when the stored tag string, read up to its first NUL, contains the tag
  between two commas, ASCII letters compared without regard to case; \<^verbatim>\<open>all_of\<close> returns
  the rows that every tag matches, \<^verbatim>\<open>any_of\<close> the rows that at least one tag matches,
  in storage order.
\<close>

lemma files_demo_world:
  "files demo_world (conn_path fresh_wallaby) = Some \<lparr>schema = results_schema, rows = [demo_row]\<rparr>"
  by (simp add: demo_world_def fresh_wallaby_def conn_path_def)

lemma plain_tag_quote_free: "plain_tag t \<Longrightarrow> quote_free t"
  by (auto simp: plain_tag_def quote_free_def list_all_iff)

lemma plain_tag_like: "plain_tag t \<Longrightarrow> sql_like (like_pattern t) s = tag_matches t (c_string s)"
  using like_pattern_contains [of t "c_string s"]
  by (auto simp: plain_tag_def tag_matches_def list_all_iff sql_like_def)

lemma get_by_tag_plain_tags:
  assumes "files wd (conn_path w) = Some tb" and "schema tb = results_schema"
    and "\<forall>t \<in> set tags. plain_tag t" and "tags \<noteq> []" and "within_limits tags"
  shows "fst (get_by_tag w wd (Some (TagList tags)) None) =
           Inr (filter (\<lambda>r. \<forall>t \<in> set tags. tag_matches t (c_string (tagscsv r))) (rows tb))
       \<and> fst (get_by_tag w wd None (Some (TagList tags))) =
           Inr (filter (\<lambda>r. \<exists>t \<in> set tags. tag_matches t (c_string (tagscsv r))) (rows tb))"
proof -
  have tr: "truthy (Some (TagList tags))" "\<not> truthy None"
    using assms(4) by (simp_all add: truthy_def)
  have tl: "taglist_of (Some (TagList tags)) = tags" by (simp add: taglist_of_def)
  have qf: "\<forall>t \<in> set (taglist_of (Some (TagList tags))). quote_free t"
    using assms(3) plain_tag_quote_free by (simp add: tl)
  have wl: "within_limits (taglist_of (Some (TagList tags)))" using assms(5) by (simp add: tl)
  have a: "(\<lambda>r. list_all (\<lambda>t. sql_like (like_pattern t) (tagscsv r)) tags) =
           (\<lambda>r. \<forall>t \<in> set tags. tag_matches t (c_string (tagscsv r)))"
    using assms(3) by (auto simp: list_all_iff plain_tag_like)
  have b: "(\<lambda>r. list_ex (\<lambda>t. sql_like (like_pattern t) (tagscsv r)) tags) =
           (\<lambda>r. \<exists>t \<in> set tags. tag_matches t (c_string (tagscsv r)))"
    using assms(3) by (auto simp: list_ex_iff plain_tag_like)
  show ?thesis
    using get_by_tag_all_of [OF tr(1) qf wl assms(1,2), of None]
      get_by_tag_any_of [OF tr(2) tr(1) qf wl assms(1,2)]
    by (simp add: tl a b)
qed

text \<open>
  The four queries of the specification on a row tagged \<^verbatim>\<open>["foo", "bar"]\<close>.
\<close>

lemma tagscsv_demo_row: "tagscsv demo_row = '',foo,bar,''"
  by (simp add: demo_row_def)

lemma within_limits_short: "length tags < 1000 \<Longrightarrow> \<forall>t \<in> set tags. length t \<le> 20000 \<Longrightarrow> within_limits tags"
proof -
  assume a: "length tags < 1000" and b: "\<forall>t \<in> set tags. length t \<le> 20000"
  have "utf8_length t + 4 \<le> max_like_pattern_length" if "t \<in> set tags" for t
    using utf8_length_le [of t] b that by (auto simp: max_like_pattern_length_def)
  with a show ?thesis by (simp add: within_limits_def max_expr_depth_def list_all_iff)
qed

lemma get_by_tag_spec_queries:
  "fst (get_by_tag fresh_wallaby demo_world (Some (TagList [''foo'', ''bar''])) None) = Inr [demo_row]
   \<and> fst (get_by_tag fresh_wallaby demo_world (Some (TagList [''foo'', ''baz''])) None) = Inr []
   \<and> fst (get_by_tag fresh_wallaby demo_world None (Some (TagList [''baz'', ''foo'']))) = Inr [demo_row]
   \<and> fst (get_by_tag fresh_wallaby demo_world (Some (TagList [''ba''])) None) = Inr []"
proof -
  have s: "schema \<lparr>schema = results_schema, rows = [demo_row]\<rparr> = results_schema" by simp
  have p: "\<forall>t \<in> set [''foo'', ''bar'']. plain_tag t" "\<forall>t \<in> set [''foo'', ''baz'']. plain_tag t"
    "\<forall>t \<in> set [''baz'', ''foo'']. plain_tag t" "\<forall>t \<in> set [''ba'']. plain_tag t"
    by (simp_all add: plain_tag_def)
  have l: "within_limits [''foo'', ''bar'']" "within_limits [''foo'', ''baz'']"
    "within_limits [''baz'', ''foo'']" "within_limits [''ba'']"
    by (simp_all add: within_limits_short)
  have m: "tag_matches ''foo'' '',foo,bar,''" "tag_matches ''bar'' '',foo,bar,''"
    "\<not> tag_matches ''baz'' '',foo,bar,''" "\<not> tag_matches ''ba'' '',foo,bar,''"
    by (simp_all add: tag_matches_def to_lower_def)
  show ?thesis
    using get_by_tag_plain_tags [OF files_demo_world s p(1) _ l(1)]
      get_by_tag_plain_tags [OF files_demo_world s p(2) _ l(2)]
      get_by_tag_plain_tags [OF files_demo_world s p(3) _ l(3)]
      get_by_tag_plain_tags [OF files_demo_world s p(4) _ l(4)]
    by (simp add: tagscsv_demo_row m c_string_def)
qed

text \<open>
  C1. The tag is spliced into the pattern as it is, so a wildcard in it is a wildcard
  of the LIKE: \<^verbatim>\<open>all_of=["%"]\<close> returns the row tagged \<^verbatim>\<open>["foo", "bar"]\<close>, although
  \<^verbatim>\<open>%\<close> is none of its tags and its stored string does not contain \<^verbatim>\<open>,%,\<close>.
\<close>

theorem get_by_tag_wildcard_tag:
  "fst (get_by_tag fresh_wallaby demo_world (Some (TagList [''%''])) None) = Inr [demo_row]
   \<and> tagscsv demo_row = tagscsv_of (Some [''foo'', ''bar''])
   \<and> ''%'' \<notin> set [''foo'', ''bar'']
   \<and> \<not> str_contains (tagscsv demo_row) ('','' @ ''%'' @ '','')"
proof -
  have "sql_like (like_pattern ''%'') '',foo,bar,''"
    by (simp add: like_pattern_def to_lower_def sql_like_def c_string_def)
  then have "fst (get_by_tag fresh_wallaby demo_world (Some (TagList [''%''])) None) = Inr [demo_row]"
    using get_by_tag_all_of [of "Some (TagList [''%''])" demo_world fresh_wallaby _ None,
        OF _ _ _ files_demo_world]
    by (simp add: truthy_def taglist_of_def quote_free_def tagscsv_demo_row within_limits_short)
  then show ?thesis by (simp add: tagscsv_demo_row tagscsv_of_def)
qed

subsection \<open>Metacharacters in query tags\<close>

lemma to_lower_comma: "to_lower c = CHR '','' \<longleftrightarrow> c = CHR '',''"
  by (auto simp: to_lower_def split: if_splits)

lemma like_comma: "like ''%,%'' s \<longleftrightarrow> CHR '','' \<in> set s"
proof (induction s)
  case Nil
  then show ?case by simp
next
  case (Cons c cs)
  have "like '',%'' (c # cs) \<longleftrightarrow> c = CHR '',''"
    using like_only_percent [of cs] to_lower_comma [of c] by (auto simp: to_lower_def)
  with Cons show ?case by auto
qed

lemma like_two_commas: "like ''%,%,%'' s \<longleftrightarrow> two_commas s"
proof (induction s)
  case Nil
  then show ?case by (simp add: two_commas_def)
next
  case (Cons c cs)
  have "like '',%,%'' (c # cs) \<longleftrightarrow> c = CHR '','' \<and> CHR '','' \<in> set cs"
    using like_comma [of cs] to_lower_comma [of c] by (auto simp: to_lower_def)
  moreover have "CHR '','' \<in> set cs \<longleftrightarrow> 1 \<le> length (filter (\<lambda>c. c = CHR '','') cs)"
    by (induction cs) auto
  ultimately show ?case using Cons by (auto simp: two_commas_def)
qed

lemma framed_two_commas: "framed s \<Longrightarrow> two_commas s"
proof -
  assume "framed s"
  then obtain r where s: "s = CHR '','' # r" and r: "r \<noteq> []" "last r = CHR '',''"
    by (auto simp: framed_def split: list.splits)
  from r have "r = butlast r @ [CHR '','']" by (metis append_butlast_last_id)
  then have "CHR '','' \<in> set r" by (metis in_set_conv_decomp)
  then have "1 \<le> length (filter (\<lambda>c. c = CHR '','') r)"
    by (induction r) auto
  with s show ?thesis by (simp add: two_commas_def)
qed

lemma c_string_no_nul: "CHR 0x00 \<notin> set s \<Longrightarrow> c_string s = s"
  by (auto simp: c_string_def takeWhile_eq_all_conv)

lemma scan_outside:
  assumes "\<forall>c \<in> set b. c \<noteq> CHR 0x27 \<and> \<not> beyond_char c" and "\<forall>a. st \<noteq> LStr a"
  shows "\<exists>st' ts'. (\<forall>a. st' \<noteq> LStr a)
            \<and> (b \<noteq> [] \<or> (\<forall>a. st \<noteq> LQuote a) \<longrightarrow> (\<forall>a. st' \<noteq> LQuote a))
            \<and> (\<forall>rest. scan st ts (b @ rest) = scan st' ts' rest)"
  using assms
proof (induction b arbitrary: st ts)
  case Nil
  then show ?case by auto
next
  case (Cons c b)
  have c: "c \<noteq> CHR 0x27" "\<not> beyond_char c" using Cons.prems(1) by auto
  have b: "\<forall>c \<in> set b. c \<noteq> CHR 0x27 \<and> \<not> beyond_char c" using Cons.prems(1) by auto
  have step: "\<exists>st1 ts1. (\<forall>a. st1 \<noteq> LStr a) \<and> (\<forall>a. st1 \<noteq> LQuote a)
       \<and> (\<forall>rest. scan st ts (c # rest) = scan st1 ts1 rest)"
  proof (cases st)
    case LOut
    then show ?thesis using c by auto
  next
    case (LId a)
    then show ?thesis using c by auto
  next
    case (LStr a)
    then show ?thesis using Cons.prems(2) by simp
  next
    case (LQuote a)
    then show ?thesis using c by auto
  qed
  then obtain st1 ts1 where s1: "\<forall>a. st1 \<noteq> LStr a" "\<forall>a. st1 \<noteq> LQuote a"
    "\<forall>rest. scan st ts (c # rest) = scan st1 ts1 rest" by blast
  from Cons.IH [OF b s1(1), of ts1] s1(2) obtain st' ts' where
    s2: "\<forall>a. st' \<noteq> LStr a" "\<forall>a. st' \<noteq> LQuote a"
    "\<forall>rest. scan st1 ts1 (b @ rest) = scan st' ts' rest" by blast
  with s1 show ?case by (intro exI [of _ st'] exI [of _ ts']) simp
qed

lemma scan_open_literal:
  assumes "\<forall>a. st \<noteq> LStr a" "\<forall>a. st \<noteq> LQuote a" "CHR 0x27 \<notin> set tail"
  shows "scan st ts (CHR 0x27 # tail) = LexIllegal"
proof -
  have "scan (LStr []) ts' (tail @ []) = LexIllegal" for ts'
    using scan_LStr_body [where body = tail and rest = "[]" and a = "[]" and ts = ts'] assms(3)
    by simp
  then have "scan (LStr []) ts' tail = LexIllegal" for ts' by simp
  then show ?thesis using assms(1,2) by (cases st) (auto simp: is_idchar_def is_space_def)
qed

lemma scan_lone_quote:
  assumes "quote_free a" and "outside_clean b"
  shows "scan LOut [] (select_by_tag_text sep [a @ [CHR 0x27] @ b]) = LexIllegal"
proof -
  let ?ts = "[TId ''SELECT'', TSym (CHR ''*''), TId ''FROM'', TId ''results'', TId ''WHERE'',
              TId ''tagscsv'', TId ''LIKE'']"
  let ?tail = "[CHR 0x0A] @ ''        ''"
  have a: "CHR 0x27 \<notin> set (''%,'' @ a)" using assms(1) by (auto simp: quote_free_def list_all_iff)
  have b: "\<forall>c \<in> set (b @ '',%''). c \<noteq> CHR 0x27 \<and> \<not> beyond_char c"
    using assms(2) by (auto simp: outside_clean_def list_all_iff beyond_char_def)
  have "scan LOut [] (select_by_tag_text sep [a @ [CHR 0x27] @ b]) =
        scan (LStr []) ?ts ((''%,'' @ a) @ CHR 0x27 # (b @ '',%'') @ CHR 0x27 # ?tail)"
    by (simp add: select_by_tag_text_def like_clause_def is_space_def is_idchar_def beyond_char_def)
  also have "\<dots> = scan (LQuote (''%,'' @ a)) ?ts ((b @ '',%'') @ CHR 0x27 # ?tail)"
    using scan_LStr_body [where body = "''%,'' @ a" and a = "[]", OF a] by simp
  finally have 1: "scan LOut [] (select_by_tag_text sep [a @ [CHR 0x27] @ b]) =
        scan (LQuote (''%,'' @ a)) ?ts ((b @ '',%'') @ CHR 0x27 # ?tail)" .
  from scan_outside [OF b, of "LQuote (''%,'' @ a)" ?ts] obtain st' ts' where
    s: "\<forall>x. st' \<noteq> LStr x" "\<forall>x. st' \<noteq> LQuote x"
    "\<forall>rest. scan (LQuote (''%,'' @ a)) ?ts ((b @ '',%'') @ rest) = scan st' ts' rest"
    by auto
  have "scan st' ts' (CHR 0x27 # ?tail) = LexIllegal"
    using scan_open_literal [OF s(1,2), of ?tail ts'] by simp
  with 1 s(3) show ?thesis by simp
qed


lemma get_by_tag_lone_quote:
  assumes "quote_free a" and "outside_clean b" and "truthy all_of \<or> truthy any_of"
    and "taglist_of (if truthy all_of then all_of else any_of) = [a @ [CHR 0x27] @ b]"
  shows "fst (get_by_tag w wd all_of any_of) = Inl StorageFault"
proof -
  have "select_text (select_by_tag_text sep [a @ [CHR 0x27] @ b]) db = Inl StorageFault" for sep db
    using scan_lone_quote [OF assms(1,2), of sep] by (simp add: select_text_def)
  then show ?thesis
    using assms(3,4) by (auto simp: get_by_tag_def execute_SelectText Let_def)
qed

lemma get_by_tag_percent:
  assumes "files wd (conn_path w) = Some tb" and "schema tb = results_schema"
  shows "fst (get_by_tag w wd None (Some (TagList [''%'']))) =
           Inr (filter (\<lambda>r. two_commas (c_string (tagscsv r))) (rows tb))"
proof -
  have "sql_like (like_pattern ''%'') s = two_commas (c_string s)" for s
    using like_two_commas [of "c_string s"] by (simp add: sql_like_def like_pattern_def)
  then show ?thesis
    using get_by_tag_any_of [of None "Some (TagList [''%''])" wd w tb, OF _ _ _ _ assms]
    by (simp add: truthy_def taglist_of_def quote_free_def within_limits_short)
qed

text \<open>
  C10, as amended. The query tags are spliced into the pattern of a LIKE and into the
  text of the statement. On a provisioned table \<^verbatim>\<open>any_of=["%"]\<close> returns the rows whose
  tag string has two commas before its first NUL; these are all the rows when the tag
  strings are framed by commas, as \<^verbatim>\<open>log\<close> writes them, and hold no NUL. A query whose
  one tag holds a single quote, with no quote and no NUL before it and, after it, no
  quote, no NUL and no character that opens a quoted identifier, a comment or a second
  statement, leaves a literal open in the text: the engine rejects the statement,
  whatever the store holds.
\<close>

theorem get_by_tag_metacharacters:
  assumes "files wd (conn_path w) = Some tb" and "schema tb = results_schema"
    and "quote_free a" and "outside_clean b"
  shows "fst (get_by_tag w wd None (Some (TagList [''%'']))) =
           Inr (filter (\<lambda>r. two_commas (c_string (tagscsv r))) (rows tb))
       \<and> ((\<forall>r \<in> set (rows tb). framed (tagscsv r) \<and> CHR 0x00 \<notin> set (tagscsv r)) \<longrightarrow>
            fst (get_by_tag w wd None (Some (TagList [''%'']))) = Inr (rows tb))
       \<and> fst (get_by_tag w wd None (Some (TagList [a @ [CHR 0x27] @ b]))) = Inl StorageFault"
proof -
  note 1 = get_by_tag_percent [OF assms(1,2)]
  have 2: "fst (get_by_tag w wd None (Some (TagList [''%'']))) = Inr (rows tb)"
    if all: "\<forall>r \<in> set (rows tb). framed (tagscsv r) \<and> CHR 0x00 \<notin> set (tagscsv r)"
  proof -
    have "two_commas (c_string (tagscsv r))" if "r \<in> set (rows tb)" for r
      using all that framed_two_commas [of "tagscsv r"] c_string_no_nul [of "tagscsv r"] by simp
    then have "filter (\<lambda>r. two_commas (c_string (tagscsv r))) (rows tb) = rows tb"
      by (auto intro: filter_True)
    with 1 show ?thesis by simp
  qed
  have 3: "fst (get_by_tag w wd None (Some (TagList [a @ [CHR 0x27] @ b]))) = Inl StorageFault"
    using get_by_tag_lone_quote [OF assms(3,4), of None "Some (TagList [a @ [CHR 0x27] @ b])"]
    by (simp add: truthy_def taglist_of_def)
  from 1 2 3 show ?thesis by blast
qed

theorem get_by_tag_metacharacters_witness:
  "fst (get_by_tag fresh_wallaby demo_world None (Some (TagList [''%'']))) = Inr [demo_row]
   \<and> \<not> str_contains (tagscsv demo_row) '',%,''
   \<and> fst (get_by_tag fresh_wallaby demo_world None (Some (TagList [''it'' @ [CHR 0x27] @ ''s'']))) =
       Inl StorageFault"
proof -
  have s: "schema \<lparr>schema = results_schema, rows = [demo_row]\<rparr> = results_schema" by simp
  have f: "\<forall>r \<in> set (rows \<lparr>schema = results_schema, rows = [demo_row]\<rparr>).
             framed (tagscsv r) \<and> CHR 0x00 \<notin> set (tagscsv r)"
    by (simp add: framed_def tagscsv_demo_row)
  have q: "quote_free ''it''" "outside_clean ''s''"
    by (simp_all add: quote_free_def outside_clean_def beyond_char_def)
  from get_by_tag_metacharacters [OF files_demo_world s q] f show ?thesis
    by (simp add: tagscsv_demo_row two_commas_def c_string_def)
qed

text \<open>
  The other wildcard: \<^verbatim>\<open>_\<close> stands for any one character, so the tag \<^verbatim>\<open>b_r\<close> finds
  the row tagged \<^verbatim>\<open>bar\<close>.
\<close>

lemma get_by_tag_underscore_demo:
  "fst (get_by_tag fresh_wallaby demo_world None (Some (TagList [''b_r'']))) = Inr [demo_row]"
proof -
  have "sql_like (like_pattern ''b_r'') '',foo,bar,''"
    by (simp add: like_pattern_def to_lower_def sql_like_def c_string_def)
  then show ?thesis
    using get_by_tag_any_of [of None "Some (TagList [''b_r''])" demo_world fresh_wallaby, OF _ _ _ _ files_demo_world]
    by (simp add: truthy_def taglist_of_def quote_free_def tagscsv_demo_row within_limits_short)
qed

text \<open>
  The claim as written fails for a tag in which the quotes pair up: two quotes in a row
  are read as one quote inside the literal, the query runs and here matches nothing.
  And \<^verbatim>\<open>any_of=["%"]\<close> does not return every row: the row that \<^verbatim>\<open>log\<close> writes for the
  tags \<^verbatim>\<open>["a\0", "foo"]\<close> has one comma before its NUL and is left out.
\<close>

lemma log_nul:
  "log_wallaby [''prog''] 100 fresh_wallaby fresh_world (PStr ''hello'')
     (Some [''a'' @ [CHR 0x00], ''foo'']) None = (Inr True, fresh_wallaby, nul_world)"
proof -
  have "dumps (wrap_payload (PStr ''hello'')) = Some hello_text"
    by (simp add: wrap_payload_def dumps_str_def escape_char_def hello_text_def)
  moreover have "utf8_length (jobtext_of [''prog''] None)
      + utf8_length (tagscsv_of (Some [''a'' @ [CHR 0x00], ''foo'']))
      + utf8_length hello_text + 100 \<le> max_length"
    by (simp add: jobtext_of_def tagscsv_of_def hello_text_def utf8_length_def max_length_def)
  ultimately show ?thesis
    using log_fresh [of "PStr ''hello''" hello_text "[''prog'']" None
        "Some [''a'' @ [CHR 0x00], ''foo'']" 100]
    by (simp add: nul_world_def nul_row_def fresh_world_def new_row_def jobtext_of_def
        tagscsv_of_def store_text_def hello_text_def looks_numeric_brace)
qed

theorem get_by_tag_quote_counterexample:
  "CHR 0x27 \<in> set [CHR 0x27, CHR 0x27]
   \<and> fst (get_by_tag fresh_wallaby demo_world None (Some (TagList [[CHR 0x27, CHR 0x27]]))) = Inr []
   \<and> stored_rows fresh_wallaby nul_world = [nul_row]
   \<and> fst (get_by_tag fresh_wallaby nul_world None (Some (TagList [''%'']))) = Inr []"
proof -
  have 1: "fst (get_by_tag fresh_wallaby demo_world None (Some (TagList [[CHR 0x27, CHR 0x27]]))) = Inr []"
    by (simp add: get_by_tag_def truthy_def taglist_of_def execute_SelectText Let_def
        select_by_tag_text_def like_clause_def select_text_def is_space_def is_idchar_def
        beyond_char_def is_word_def to_upper_def files_demo_world
        utf8_length_def max_sql_length_def expr_depth_def max_expr_depth_def
        max_like_pattern_length_def sql_like_def c_string_def
        tagscsv_demo_row to_lower_def)
  have f: "files nul_world (conn_path fresh_wallaby) = Some \<lparr>schema = results_schema, rows = [nul_row]\<rparr>"
    by (simp add: nul_world_def fresh_wallaby_def conn_path_def)
  have 2: "stored_rows fresh_wallaby nul_world = [nul_row]"
    by (simp add: stored_rows_def f)
  have "\<not> two_commas (c_string (tagscsv nul_row))"
    by (simp add: two_commas_def c_string_def nul_row_def)
  then have 3: "fst (get_by_tag fresh_wallaby nul_world None (Some (TagList [''%'']))) = Inr []"
    using get_by_tag_percent [OF f] by simp
  from 1 2 3 show ?thesis by simp
qed

subsection \<open>Neither or both of all_of and any_of\<close>

lemma get_by_tag_neither:
  assumes "\<not> truthy all_of" and "\<not> truthy any_of"
  shows "get_by_tag w wd all_of any_of = (Inl InvalidQueryFault, w, wd)"
  using assms by (simp add: get_by_tag_def)

lemma get_by_tag_ignores_any_of:
  assumes "truthy all_of"
  shows "get_by_tag w wd all_of any_of = get_by_tag w wd all_of None"
  using assms by (simp add: get_by_tag_def)

text \<open>
  C2. With neither argument (each \<^verbatim>\<open>None\<close> or empty) the fault is raised and neither
  the object nor the world changes: no statement reaches the engine
  (\<open>get_by_tag_neither\<close>). With both arguments no fault is raised: \<^verbatim>\<open>any_of\<close> is
  ignored and the \<^verbatim>\<open>all_of\<close> query runs (\<open>get_by_tag_ignores_any_of\<close>). Here it
  returns the row tagged \<^verbatim>\<open>["foo", "bar"]\<close>, and the statement is in the list of accesses.
\<close>

theorem get_by_tag_both_runs_all_of:
  "get_by_tag fresh_wallaby demo_world (Some (TagList [''foo''])) (Some (TagList [''baz''])) =
     (Inr [demo_row], fresh_wallaby,
      accessed fresh_wallaby demo_world (SelectText (select_by_tag_text '' AND '' [''foo''])))"
proof -
  have "sql_like (like_pattern ''foo'') '',foo,bar,''"
    by (simp add: like_pattern_def to_lower_def sql_like_def c_string_def)
  then show ?thesis
    using get_by_tag_all_of [of "Some (TagList [''foo''])" demo_world fresh_wallaby _ "Some (TagList [''baz''])",
        OF _ _ _ files_demo_world]
    by (simp add: truthy_def taglist_of_def quote_free_def tagscsv_demo_row cursor_def fresh_wallaby_def
        within_limits_short)
qed

subsection \<open>The frame of the stored tag string\<close>

text \<open>
  Each operation keeps the object bound to the same database; the queries change no
  database and \<^verbatim>\<open>log\<close> adds at most its one row, whose tag string is framed by commas.
\<close>

lemma log_wallaby_cases:
  assumes "log_wallaby argv now w wd payload tags job = (r, w', wd')"
  shows "conn_path w' = conn_path w \<and>
         (files wd' = files wd
          \<or> (\<exists>tb i k t. files wd (conn_path w) = Some tb \<and> schema tb = results_schema \<and>
                new_rowid (entropy wd) (rows tb) = (Some i, k) \<and>
                files wd' = (files wd)(conn_path w :=
                  Some (tb\<lparr>rows := insert_row (new_row i argv now t tags job) (rows tb)\<rparr>))))"
proof (cases r)
  case (Inl f)
  with assms show ?thesis
    by (auto simp: log_wallaby_def execute_def Let_def conn_path_cursor
        split: option.splits sum.splits prod.splits if_splits)
next
  case (Inr b)
  with assms log_wallaby_Inr [of argv now w wd payload tags job b w' wd'] show ?thesis
    by (auto simp: conn_path_cursor)
qed

lemma get_by_tag_frame:
  assumes "get_by_tag w wd all_of any_of = (r, w', wd')"
  shows "conn_path w' = conn_path w \<and> files wd' = files wd"
  using assms
  by (auto simp: get_by_tag_def execute_SelectText accessed_def conn_path_cursor Let_def
      split: if_splits)

lemma execute_SelectSince:
  "execute w wd (SelectSince s) =
     (case files wd (conn_path w) of
        None \<Rightarrow> Inl StorageFault
      | Some t \<Rightarrow> if schema t \<noteq> results_schema then Inl Unmodelled
                  else Inr (filter (\<lambda>r. date r > s) (rows t)),
      cursor w, accessed w wd (SelectSince s))"
  by (auto simp: execute_def Let_def conn_path_cursor accessed_def fun_upd_idem split: option.splits)

lemma get_results_since_frame:
  assumes "get_results_since w wd since = (r, w', wd')"
  shows "conn_path w' = conn_path w \<and> files wd' = files wd"
  using assms
  by (auto simp: get_results_since_def execute_SelectSince accessed_def conn_path_cursor)

lemma framed_tagscsv_of: "framed (tagscsv_of tags)"
  by (cases "case tags of None \<Rightarrow> [] | Some ts \<Rightarrow> if ts \<noteq> [] then join '','' ts else []")
     (simp_all add: framed_def tagscsv_of_def)

lemma perform_invariant:
  assumes "perform x w wd = (ob, w', wd')"
    and "provisioned w wd" and "\<forall>r \<in> set (stored_rows w wd). framed (tagscsv r)"
  shows "provisioned w' wd' \<and> (\<forall>r \<in> set (stored_rows w' wd'). framed (tagscsv r))"
proof (cases x)
  case (Log argv now payload tags job)
  with assms(1) obtain r where "log_wallaby argv now w wd payload tags job = (r, w', wd')"
    by (auto split: prod.splits)
  from log_wallaby_cases [OF this] assms(2,3) show ?thesis
    by (auto simp: provisioned_def stored_rows_def new_row_def framed_tagscsv_of set_insert_row
        split: option.splits)
next
  case (ByTag all_of any_of)
  with assms(1) obtain r where "get_by_tag w wd all_of any_of = (r, w', wd')"
    by (auto split: prod.splits)
  from get_by_tag_frame [OF this] assms(2,3) show ?thesis
    by (simp add: provisioned_def stored_rows_def)
next
  case (Since since)
  with assms(1) obtain r where "get_results_since w wd since = (r, w', wd')"
    by (auto split: prod.splits)
  from get_results_since_frame [OF this] assms(2,3) show ?thesis
    by (simp add: provisioned_def stored_rows_def)
qed

lemma init_invariant:
  assumes "files wd0 (expanduser path) = None" and "init expanduser path wd0 = (Inr w, wd)"
  shows "provisioned w wd \<and> stored_rows w wd = []"
  using assms
  by (auto simp: init_def initialize_def execute_def Let_def cursor_def conn_path_def
      provisioned_def stored_rows_def results_schema_def split: prod.splits sum.splits)

text \<open>
  C6, as amended. In every state reached from a newly provisioned store by the three
  core operations, the table is there and every stored tag string begins and ends with
  a comma. (Nothing is said about commas inside a tag: they are stored as given.)
\<close>

theorem stored_tags_framed:
  assumes "reachable w wd"
  shows "provisioned w wd \<and> (\<forall>r \<in> set (stored_rows w wd). framed (tagscsv r))"
  using assms
proof (induction rule: reachable.induct)
  case (constructed wd0 expanduser path w wd)
  then show ?case using init_invariant [of wd0 expanduser path w wd] by simp
next
  case (performed w wd x ob w' wd')
  then show ?case using perform_invariant [of x w wd ob w' wd'] by blast
qed

lemma reachable_demo: "reachable fresh_wallaby demo_world"
proof -
  have "files empty_world ((\<lambda>p. p) ''wallaby.db'') = None" by (simp add: empty_world_def)
  then have "reachable fresh_wallaby fresh_world"
    using init_fresh by (rule reachable.constructed)
  moreover have "perform (Log [''prog''] 100 (PStr ''hello'') (Some [''foo'', ''bar'']) None)
      fresh_wallaby fresh_world = (Logged (Inr True), fresh_wallaby, demo_world)"
    by (simp add: log_demo)
  ultimately show ?thesis by (rule reachable.performed)
qed

theorem stored_tags_framed_witness:
  "reachable fresh_wallaby demo_world
   \<and> provisioned fresh_wallaby demo_world
   \<and> map tagscsv (stored_rows fresh_wallaby demo_world) = ['',foo,bar,'']
   \<and> framed '',foo,bar,''"
  using stored_tags_framed [OF reachable_demo] reachable_demo
  by (simp add: stored_rows_demo tagscsv_demo_row)

text \<open>
  The claim as written fails in its second half: \<^verbatim>\<open>log\<close> does not look into the tags,
  and a tag with a comma in it is stored.
\<close>

theorem stored_tag_with_delimiter_counterexample:
  "log_wallaby [''prog''] 100 fresh_wallaby fresh_world (PStr ''hello'') (Some [''a,b'']) None
     = (Inr True, fresh_wallaby, comma_world)
   \<and> map tagscsv (stored_rows fresh_wallaby comma_world) = ['',a,b,'']
   \<and> CHR '','' \<in> set ''a,b''"
proof -
  have "dumps (wrap_payload (PStr ''hello'')) = Some hello_text"
    by (simp add: wrap_payload_def dumps_str_def escape_char_def hello_text_def)
  moreover have "utf8_length (jobtext_of [''prog''] None) + utf8_length (tagscsv_of (Some [''a,b'']))
      + utf8_length hello_text + 100 \<le> max_length"
    by (simp add: jobtext_of_def tagscsv_of_def hello_text_def utf8_length_def max_length_def)
  ultimately show ?thesis
    using log_fresh [of "PStr ''hello''" hello_text "[''prog'']" None "Some [''a,b'']" 100]
    by (simp add: comma_world_def fresh_world_def new_row_def jobtext_of_def
        tagscsv_of_def store_text_def hello_text_def looks_numeric_brace
        stored_rows_def fresh_wallaby_def conn_path_def)
qed

subsection \<open>Stored rows stay as they are\<close>

lemma log_wallaby_rows:
  assumes "log_wallaby argv now w wd payload tags job = (r, w', wd')"
  shows "conn_path w' = conn_path w
       \<and> subseq (stored_rows w wd) (stored_rows w' wd')
       \<and> length (stored_rows w' wd') \<le> length (stored_rows w wd) + 1
       \<and> ((\<forall>q \<in> set (stored_rows w wd). row_id q < 9223372036854775807) \<longrightarrow>
            (\<exists>added. stored_rows w' wd' = stored_rows w wd @ added \<and> length added \<le> 1))"
proof -
  from log_wallaby_cases [OF assms] have c: "conn_path w' = conn_path w" by simp
  from log_wallaby_cases [OF assms] consider (same) "files wd' = files wd"
    | (more) tb i k t where "files wd (conn_path w) = Some tb"
        "new_rowid (entropy wd) (rows tb) = (Some i, k)"
        "files wd' = (files wd)(conn_path w :=
           Some (tb\<lparr>rows := insert_row (new_row i argv now t tags job) (rows tb)\<rparr>))"
    by blast
  then show ?thesis
  proof cases
    case same
    with c show ?thesis by (simp add: stored_rows_def)
  next
    case more
    let ?r = "new_row i argv now t tags job"
    have before: "stored_rows w wd = rows tb" using more(1) by (simp add: stored_rows_def)
    have after: "stored_rows w' wd' = insert_row ?r (rows tb)"
      using more(3) c by (simp add: stored_rows_def)
    have "\<exists>added. insert_row ?r (rows tb) = rows tb @ added \<and> length added \<le> 1"
      if small: "\<forall>q \<in> set (rows tb). row_id q < 9223372036854775807"
    proof -
      have "\<forall>q \<in> set (rows tb). row_id q < row_id ?r"
        using new_rowid_greater [OF more(2) small] by (simp add: new_row_def)
      then have "insert_row ?r (rows tb) = rows tb @ [?r]" by (rule insert_row_last)
      then show ?thesis by simp
    qed
    with c show ?thesis
      by (simp add: before after subseq_insert_row length_insert_row)
  qed
qed

lemma perform_rows:
  assumes "perform x w wd = (ob, w', wd')"
  shows "conn_path w' = conn_path w
       \<and> subseq (stored_rows w wd) (stored_rows w' wd')
       \<and> ((\<forall>q \<in> set (stored_rows w wd). row_id q < 9223372036854775807) \<longrightarrow>
            (\<exists>added. stored_rows w' wd' = stored_rows w wd @ added))"
proof (cases x)
  case (Log argv now payload tags job)
  with assms obtain r where "log_wallaby argv now w wd payload tags job = (r, w', wd')"
    by (auto split: prod.splits)
  from log_wallaby_rows [OF this] show ?thesis by blast
next
  case (ByTag all_of any_of)
  with assms obtain r where "get_by_tag w wd all_of any_of = (r, w', wd')"
    by (auto split: prod.splits)
  from get_by_tag_frame [OF this] show ?thesis by (simp add: stored_rows_def)
next
  case (Since since)
  with assms obtain r where "get_results_since w wd since = (r, w', wd')"
    by (auto split: prod.splits)
  from get_results_since_frame [OF this] show ?thesis by (simp add: stored_rows_def)
qed

lemma run_rows:
  "run xs w wd = (obs, w', wd') \<Longrightarrow>
     conn_path w' = conn_path w
     \<and> subseq (stored_rows w wd) (stored_rows w' wd')
     \<and> ((\<forall>q \<in> set (stored_rows w' wd'). row_id q < 9223372036854775807) \<longrightarrow>
          (\<exists>added. stored_rows w' wd' = stored_rows w wd @ added))"
proof (induction xs arbitrary: w wd obs)
  case Nil
  then show ?case by simp
next
  case (Cons x xs)
  obtain ob w1 wd1 where p: "perform x w wd = (ob, w1, wd1)" by (cases "perform x w wd") auto
  obtain obs1 where r: "run xs w1 wd1 = (obs1, w', wd')"
    using Cons.prems p by (auto split: prod.splits)
  note step = perform_rows [OF p] and tail = Cons.IH [OF r]
  have sub: "subseq (stored_rows w wd) (stored_rows w' wd')"
    using step tail by (blast intro: subseq_order.order_trans)
  have "\<exists>added. stored_rows w' wd' = stored_rows w wd @ added"
    if small: "\<forall>q \<in> set (stored_rows w' wd'). row_id q < 9223372036854775807"
  proof -
    from tail small obtain b where b: "stored_rows w' wd' = stored_rows w1 wd1 @ b" by blast
    have "q \<in> set (stored_rows w' wd')" if "q \<in> set (stored_rows w wd)" for q
      using list_emb_set [OF sub that] by blast
    with small have "\<forall>q \<in> set (stored_rows w wd). row_id q < 9223372036854775807" by blast
    with step obtain a where "stored_rows w1 wd1 = stored_rows w wd @ a" by blast
    with b show ?thesis by simp
  qed
  with step tail sub show ?case by simp
qed

text \<open>
  C8. No operation changes or removes a stored row. The two queries leave every
  database as it was. After \<^verbatim>\<open>log\<close>, and after any sequence of the three operations,
  the rows that were there are all still there, unchanged and in the same order, among
  the rows of the table; \<^verbatim>\<open>log\<close> adds at most one row. And while no id is the largest
  64-bit integer, the rows that were there are still the first rows of the table.
\<close>

theorem stored_rows_never_change:
  "files (snd (snd (get_by_tag w wd all_of any_of))) = files wd
   \<and> files (snd (snd (get_results_since w wd since))) = files wd
   \<and> subseq (stored_rows w wd)
        (stored_rows (fst (snd (log_wallaby argv now w wd payload tags job)))
                     (snd (snd (log_wallaby argv now w wd payload tags job))))
   \<and> length (stored_rows (fst (snd (log_wallaby argv now w wd payload tags job)))
                         (snd (snd (log_wallaby argv now w wd payload tags job))))
       \<le> length (stored_rows w wd) + 1
   \<and> ((\<forall>q \<in> set (stored_rows w wd). row_id q < 9223372036854775807) \<longrightarrow>
        (\<exists>added. stored_rows (fst (snd (log_wallaby argv now w wd payload tags job)))
                             (snd (snd (log_wallaby argv now w wd payload tags job)))
                   = stored_rows w wd @ added \<and> length added \<le> 1))
   \<and> subseq (stored_rows w wd) (stored_rows (fst (snd (run xs w wd))) (snd (snd (run xs w wd))))
   \<and> ((\<forall>q \<in> set (stored_rows (fst (snd (run xs w wd))) (snd (snd (run xs w wd)))).
          row_id q < 9223372036854775807) \<longrightarrow>
        (\<exists>added. stored_rows (fst (snd (run xs w wd))) (snd (snd (run xs w wd)))
                   = stored_rows w wd @ added))"
proof -
  have 1: "files (snd (snd (get_by_tag w wd all_of any_of))) = files wd"
    using get_by_tag_frame [of w wd all_of any_of] by (cases "get_by_tag w wd all_of any_of") simp
  have 2: "files (snd (snd (get_results_since w wd since))) = files wd"
    using get_results_since_frame [of w wd since] by (cases "get_results_since w wd since") simp
  obtain r w1 wd1 where l: "log_wallaby argv now w wd payload tags job = (r, w1, wd1)"
    by (cases "log_wallaby argv now w wd payload tags job") auto
  note 3 = log_wallaby_rows [OF l]
  obtain obs w2 wd2 where r: "run xs w wd = (obs, w2, wd2)"
    by (cases "run xs w wd") auto
  note 4 = run_rows [OF r]
  from 1 2 3 4 show ?thesis by (simp add: l r)
qed

theorem stored_rows_never_change_witness:
  "subseq [demo_row]
     (stored_rows (fst (snd (run [ByTag None (Some (TagList [''foo''])),
                                  Log [''prog''] 200 (PStr ''again'') None None,
                                  Since 0] fresh_wallaby demo_world)))
                  (snd (snd (run [ByTag None (Some (TagList [''foo''])),
                                  Log [''prog''] 200 (PStr ''again'') None None,
                                  Since 0] fresh_wallaby demo_world))))
   \<and> (\<exists>added. stored_rows (fst (snd (log_wallaby [''prog''] 200 fresh_wallaby demo_world
                                        (PStr ''again'') None None)))
                           (snd (snd (log_wallaby [''prog''] 200 fresh_wallaby demo_world
                                        (PStr ''again'') None None)))
                = [demo_row] @ added \<and> length added \<le> 1)"
proof -
  have small: "\<forall>q \<in> set (stored_rows fresh_wallaby demo_world). row_id q < 9223372036854775807"
    by (simp add: stored_rows_demo demo_row_def)
  from stored_rows_never_change [of fresh_wallaby demo_world None None 0 "[''prog'']" 200
      "PStr ''again''" None None
      "[ByTag None (Some (TagList [''foo''])), Log [''prog''] 200 (PStr ''again'') None None, Since 0]"]
    small
  show ?thesis by (simp only: stored_rows_demo)
qed

subsection \<open>Provisioning again\<close>

text \<open>
  The constructor always returns the same object for a path; an object with an open
  connection is not changed by the operations, which never remove the table; and what
  the operations return depends on the world only through its databases and the random
  numbers still to be drawn.
\<close>

lemma init_result:
  "init expanduser path wd =
     (Inr (opened_at (expanduser path)),
      (accessed (opened_at (expanduser path)) wd (CreateTableIfNotExists results_schema))
        \<lparr>files := (case files wd (expanduser path) of
                     None \<Rightarrow> (files wd)(expanduser path := Some \<lparr>schema = results_schema, rows = []\<rparr>)
                   | Some tb \<Rightarrow> files wd)\<rparr>)"
  by (auto simp: init_def initialize_def execute_def Let_def cursor_def conn_path_def
      opened_at_def accessed_def results_schema_def fun_upd_idem split: option.splits)

lemma perform_object:
  assumes "perform x w wd = (ob, w', wd')" and "conn w = Some c"
  shows "w' = w"
proof (cases x)
  case (Log argv now payload tags job)
  with assms show ?thesis
    by (auto simp: log_wallaby_def execute_def Let_def cursor_def
        split: prod.splits option.splits sum.splits)
next
  case (ByTag all_of any_of)
  with assms show ?thesis
    by (auto simp: get_by_tag_def execute_SelectText Let_def cursor_def
        split: prod.splits if_splits option.splits)
next
  case (Since since)
  with assms show ?thesis
    by (auto simp: get_results_since_def execute_SelectSince cursor_def split: prod.splits)
qed

lemma perform_keeps_table:
  assumes "perform x w wd = (ob, w', wd')" and "files wd (conn_path w) = Some tb"
  shows "\<exists>tb'. files wd' (conn_path w) = Some tb'"
proof (cases x)
  case (Log argv now payload tags job)
  with assms(1) obtain r where "log_wallaby argv now w wd payload tags job = (r, w', wd')"
    by (auto split: prod.splits)
  from log_wallaby_cases [OF this] assms(2) show ?thesis by auto
next
  case (ByTag all_of any_of)
  with assms(1) obtain r where "get_by_tag w wd all_of any_of = (r, w', wd')"
    by (auto split: prod.splits)
  from get_by_tag_frame [OF this] assms(2) show ?thesis by simp
next
  case (Since since)
  with assms(1) obtain r where "get_results_since w wd since = (r, w', wd')"
    by (auto split: prod.splits)
  from get_results_since_frame [OF this] assms(2) show ?thesis by simp
qed

lemma run_connected:
  assumes "run xs w wd = (obs, w', wd')" and "conn w = Some c" and "files wd (conn_path w) = Some tb"
  shows "w' = w \<and> (\<exists>tb'. files wd' (conn_path w) = Some tb')"
  using assms
proof (induction xs arbitrary: wd obs tb)
  case Nil
  then show ?case by simp
next
  case (Cons x xs)
  obtain ob w1 wd1 where p: "perform x w wd = (ob, w1, wd1)" by (cases "perform x w wd") auto
  have w1: "w1 = w" using perform_object [OF p Cons.prems(2)] .
  obtain tb1 where t1: "files wd1 (conn_path w) = Some tb1"
    using perform_keeps_table [OF p Cons.prems(3)] by blast
  obtain obs1 where r: "run xs w wd1 = (obs1, w', wd')"
    using Cons.prems(1) p w1 by (auto split: prod.splits)
  from Cons.IH [OF r Cons.prems(2) t1] show ?case .
qed

lemma execute_files_cong:
  assumes "files wd = files wd2" and "entropy wd = entropy wd2"
  shows "fst (execute w wd stmt) = fst (execute w wd2 stmt)
       \<and> fst (snd (execute w wd stmt)) = fst (snd (execute w wd2 stmt))
       \<and> files (snd (snd (execute w wd stmt))) = files (snd (snd (execute w wd2 stmt)))
       \<and> entropy (snd (snd (execute w wd stmt))) = entropy (snd (snd (execute w wd2 stmt)))"
  using assms by (auto simp: execute_def Let_def split: sum.splits prod.splits)

lemma log_wallaby_files_cong:
  assumes "files wd = files wd2" and "entropy wd = entropy wd2"
  shows "fst (log_wallaby argv now w wd payload tags job) = fst (log_wallaby argv now w wd2 payload tags job)
       \<and> fst (snd (log_wallaby argv now w wd payload tags job)) =
           fst (snd (log_wallaby argv now w wd2 payload tags job))
       \<and> files (snd (snd (log_wallaby argv now w wd payload tags job))) =
           files (snd (snd (log_wallaby argv now w wd2 payload tags job)))
       \<and> entropy (snd (snd (log_wallaby argv now w wd payload tags job))) =
           entropy (snd (snd (log_wallaby argv now w wd2 payload tags job)))"
proof (cases "dumps (wrap_payload payload)")
  case None
  then show ?thesis using assms by (simp add: log_wallaby_def)
next
  case (Some t)
  let ?s = "InsertInto (jobtext_of argv job) (tagscsv_of tags) now t"
  obtain r w1 wd1 where e1: "execute w wd ?s = (r, w1, wd1)" by (cases "execute w wd ?s") auto
  obtain r' w1' wd1' where e2: "execute w wd2 ?s = (r', w1', wd1')" by (cases "execute w wd2 ?s") auto
  from execute_files_cong [OF assms, of w ?s] e1 e2
  have "r' = r" "w1' = w1" "files wd1 = files wd1'" "entropy wd1 = entropy wd1'" by simp_all
  then show ?thesis
    using Some e1 e2 by (cases r) (simp_all add: log_wallaby_def)
qed

lemma perform_files_cong:
  assumes "files wd = files wd2" and "entropy wd = entropy wd2"
  shows "fst (perform x w wd) = fst (perform x w wd2)
       \<and> fst (snd (perform x w wd)) = fst (snd (perform x w wd2))
       \<and> files (snd (snd (perform x w wd))) = files (snd (snd (perform x w wd2)))
       \<and> entropy (snd (snd (perform x w wd))) = entropy (snd (snd (perform x w wd2)))"
proof (cases x)
  case (Log argv now payload tags job)
  then show ?thesis
    using log_wallaby_files_cong [OF assms, of argv now w payload tags job]
    by (auto split: prod.splits)
next
  case (ByTag all_of any_of)
  then show ?thesis
    using assms by (auto simp: get_by_tag_def execute_SelectText accessed_def Let_def split: prod.splits)
next
  case (Since since)
  then show ?thesis
    using assms by (auto simp: get_results_since_def execute_SelectSince accessed_def split: prod.splits)
qed

lemma run_files_cong:
  assumes "files wd = files wd2" and "entropy wd = entropy wd2"
  shows "fst (run xs w wd) = fst (run xs w wd2)
       \<and> fst (snd (run xs w wd)) = fst (snd (run xs w wd2))
       \<and> files (snd (snd (run xs w wd))) = files (snd (snd (run xs w wd2)))
       \<and> entropy (snd (snd (run xs w wd))) = entropy (snd (snd (run xs w wd2)))"
  using assms
proof (induction xs arbitrary: w wd wd2)
  case Nil
  then show ?case by simp
next
  case (Cons x xs)
  obtain ob w1 wd1 where p: "perform x w wd = (ob, w1, wd1)" by (cases "perform x w wd") auto
  obtain ob' w1' wd1' where p': "perform x w wd2 = (ob', w1', wd1')" by (cases "perform x w wd2") auto
  from perform_files_cong [OF Cons.prems, of x w] p p'
  have e: "ob' = ob" "w1' = w1" "files wd1 = files wd1'" "entropy wd1 = entropy wd1'" by simp_all
  obtain obs v vd where r: "run xs w1 wd1 = (obs, v, vd)" by (cases "run xs w1 wd1") auto
  obtain obs' v' vd' where r': "run xs w1 wd1' = (obs', v', vd')" by (cases "run xs w1 wd1'") auto
  from Cons.IH [OF e(3,4), of w1] r r'
  have "obs' = obs" "v' = v" "files vd = files vd'" "entropy vd = entropy vd'" by simp_all
  then show ?case by (simp add: p p' e r r')
qed


text \<open>
  C9. Constructing a store at a path whose database already holds the table never
  fails and leaves every database as it was: the table, its schema and its rows.
  And after a first construction and any operations, a second construction at the same
  path returns an object in the same state as the first one is in, changes no database,
  and every sequence of operations then observes the same and leaves the same databases
  as it would without the second construction.
\<close>

theorem provisioning_idempotent:
  "(files wd (expanduser path) = Some tb \<longrightarrow>
      (\<exists>w wd'. init expanduser path wd = (Inr w, wd') \<and> files wd' = files wd))
   \<and> (init expanduser path wd0 = (Inr w1, wd1) \<and> run xs w1 wd1 = (obs, w1', wd1') \<longrightarrow>
      (\<exists>wd2. init expanduser path wd1' = (Inr w1', wd2) \<and> files wd2 = files wd1'
         \<and> (\<forall>ys. fst (run ys w1' wd2) = fst (run ys w1' wd1')
                \<and> files (snd (snd (run ys w1' wd2))) = files (snd (snd (run ys w1' wd1'))))))"
proof (intro conjI impI)
  assume "files wd (expanduser path) = Some tb"
  then show "\<exists>w wd'. init expanduser path wd = (Inr w, wd') \<and> files wd' = files wd"
    by (simp add: init_result accessed_def)
next
  assume a: "init expanduser path wd0 = (Inr w1, wd1) \<and> run xs w1 wd1 = (obs, w1', wd1')"
  let ?p = "expanduser path"
  have w1: "w1 = opened_at ?p" using a by (simp add: init_result)
  have c: "conn w1 = Some ?p" "conn_path w1 = ?p" by (simp_all add: w1 opened_at_def conn_path_def)
  obtain tb1 where t1: "files wd1 (conn_path w1) = Some tb1"
    using a by (cases "files wd0 ?p") (auto simp: init_result accessed_def c(2))
  from a have rn: "run xs w1 wd1 = (obs, w1', wd1')" by simp
  from run_connected [OF rn c(1) t1] have rw: "w1' = w1"
    and "\<exists>tb'. files wd1' (conn_path w1) = Some tb'" by simp_all
  then obtain tb' where r: "files wd1' ?p = Some tb'" by (auto simp: c(2))
  let ?wd2 = "accessed (opened_at ?p) wd1' (CreateTableIfNotExists results_schema)"
  have i: "init expanduser path wd1' = (Inr w1', ?wd2)"
    using r rw by (simp add: init_result w1 accessed_def)
  have f: "files ?wd2 = files wd1'" "entropy ?wd2 = entropy wd1'" by (simp_all add: accessed_def)
  from i f run_files_cong [OF f] show
    "\<exists>wd2. init expanduser path wd1' = (Inr w1', wd2) \<and> files wd2 = files wd1'
       \<and> (\<forall>ys. fst (run ys w1' wd2) = fst (run ys w1' wd1')
              \<and> files (snd (snd (run ys w1' wd2))) = files (snd (snd (run ys w1' wd1'))))"
    by blast
qed

theorem provisioning_idempotent_witness:
  "files demo_world ''wallaby.db'' = Some \<lparr>schema = results_schema, rows = [demo_row]\<rparr>
   \<and> (\<exists>w wd'. init (\<lambda>p. p) ''wallaby.db'' demo_world = (Inr w, wd') \<and> files wd' = files demo_world)
   \<and> init (\<lambda>p. p) ''wallaby.db'' empty_world = (Inr fresh_wallaby, fresh_world)
   \<and> run [Log [''prog''] 100 (PStr ''hello'') (Some [''foo'', ''bar'']) None] fresh_wallaby fresh_world
        = ([Logged (Inr True)], fresh_wallaby, demo_world)
   \<and> (\<exists>wd2. init (\<lambda>p. p) ''wallaby.db'' demo_world = (Inr fresh_wallaby, wd2)
         \<and> files wd2 = files demo_world
         \<and> (\<forall>ys. fst (run ys fresh_wallaby wd2) = fst (run ys fresh_wallaby demo_world)
                \<and> files (snd (snd (run ys fresh_wallaby wd2))) =
                    files (snd (snd (run ys fresh_wallaby demo_world)))))"
proof -
  have 1: "files demo_world ((\<lambda>p. p) ''wallaby.db'') = Some \<lparr>schema = results_schema, rows = [demo_row]\<rparr>"
    by (simp add: demo_world_def)
  have 2: "run [Log [''prog''] 100 (PStr ''hello'') (Some [''foo'', ''bar'']) None] fresh_wallaby fresh_world
        = ([Logged (Inr True)], fresh_wallaby, demo_world)"
    by (simp add: log_demo)
  note t = provisioning_idempotent [of demo_world "\<lambda>p. p" "''wallaby.db''"
      "\<lparr>schema = results_schema, rows = [demo_row]\<rparr>" empty_world fresh_wallaby fresh_world
      "[Log [''prog''] 100 (PStr ''hello'') (Some [''foo'', ''bar'']) None]"
      "[Logged (Inr True)]" fresh_wallaby demo_world]
  from t 1 have a: "\<exists>w wd'. init (\<lambda>p. p) ''wallaby.db'' demo_world = (Inr w, wd') \<and> files wd' = files demo_world"
    by blast
  from t init_fresh 2 have b: "\<exists>wd2. init (\<lambda>p. p) ''wallaby.db'' demo_world = (Inr fresh_wallaby, wd2)
         \<and> files wd2 = files demo_world
         \<and> (\<forall>ys. fst (run ys fresh_wallaby wd2) = fst (run ys fresh_wallaby demo_world)
                \<and> files (snd (snd (run ys fresh_wallaby wd2))) =
                    files (snd (snd (run ys fresh_wallaby demo_world))))"
    by blast
  from 1 a init_fresh 2 b show ?thesis by simp
qed

subsection \<open>Decoding what the encoder wrote\<close>

text \<open>
  The decoder inverts the encoder: first for the escapes of a string, then for the
  digits of an integer, then for the items of an array and the pairs of an object, and
  by induction on the value for every value the encoder accepts. The length of the
  text is fuel enough.
\<close>

lemma hex_val_digit_char: "k < 16 \<Longrightarrow> hex_val (digit_char k) = Some k"
proof -
  assume "k < 16"
  then have "k = 0 \<or> k = 1 \<or> k = 2 \<or> k = 3 \<or> k = 4 \<or> k = 5 \<or> k = 6 \<or> k = 7 \<or> k = 8
      \<or> k = 9 \<or> k = 10 \<or> k = 11 \<or> k = 12 \<or> k = 13 \<or> k = 14 \<or> k = 15" by arith
  then show ?thesis
    by (elim disjE) (simp_all add: hex_val_def digit_char_def is_digit_def)
qed

lemma digit_char_digit: "k < 10 \<Longrightarrow> is_digit (digit_char k) \<and> of_char (digit_char k) - 48 = k"
proof -
  assume "k < 10"
  then have "k = 0 \<or> k = 1 \<or> k = 2 \<or> k = 3 \<or> k = 4 \<or> k = 5 \<or> k = 6 \<or> k = 7 \<or> k = 8
      \<or> k = 9" by arith
  then show ?thesis
    by (elim disjE) (simp_all add: digit_char_def is_digit_def)
qed

lemma of_char_less_256: "(of_char (c::char) :: nat) < 256"
  by (cases c) (simp add: of_char_def horner_sum_foldr)


lemma parse_string_unicode_escape:
  "parse_string acc ([CHR 0x5C, CHR ''u'', CHR ''0'', CHR ''0'',
        digit_char (of_char c div 16), digit_char (of_char c mod 16)] @ rest) =
   parse_string (acc @ [c]) rest"
proof -
  let ?n = "of_char c :: nat"
  have hi: "hex_val (digit_char (?n div 16)) = Some (?n div 16)"
    using of_char_less_256 [of c] by (intro hex_val_digit_char) arith
  have lo: "hex_val (digit_char (?n mod 16)) = Some (?n mod 16)"
    by (intro hex_val_digit_char) simp
  have zero: "hex_val (CHR ''0'') = Some 0" by (simp add: hex_val_def is_digit_def)
  have same: "char_of (?n div 16 * 16 + ?n mod 16) = c" by simp
  show ?thesis by (simp add: hi lo zero same)
qed

lemma parse_string_escape:
  "parse_string acc (escape_char c @ rest) = parse_string (acc @ [c]) rest"
proof -
  consider (special) "c \<in> {CHR 0x22, CHR 0x5C, CHR 0x0A, CHR 0x0D, CHR 0x09, CHR 0x08, CHR 0x0C}"
    | (printable) "c \<notin> {CHR 0x22, CHR 0x5C, CHR 0x0A, CHR 0x0D, CHR 0x09, CHR 0x08, CHR 0x0C}"
        "(32::nat) \<le> of_char c \<and> (of_char c :: nat) \<le> 126"
    | (other) "c \<notin> {CHR 0x22, CHR 0x5C, CHR 0x0A, CHR 0x0D, CHR 0x09, CHR 0x08, CHR 0x0C}"
        "\<not> ((32::nat) \<le> of_char c \<and> (of_char c :: nat) \<le> 126)"
    by blast
  then show ?thesis
  proof cases
    case special
    then show ?thesis
      by (elim insertE emptyE) (simp_all add: escape_char_def unescape_def)
  next
    case printable
    then have "escape_char c = [c]" by (simp add: escape_char_def)
    with printable show ?thesis by simp
  next
    case other
    then have "escape_char c = [CHR 0x5C, CHR ''u'', CHR ''0'', CHR ''0'',
        digit_char (of_char c div 16), digit_char (of_char c mod 16)]"
      by (simp add: escape_char_def)
    then show ?thesis using parse_string_unicode_escape [of acc c rest] by simp
  qed
qed

lemma parse_string_escaped:
  "parse_string acc (concat (map escape_char s) @ CHR 0x22 # rest) = Some (acc @ s, rest)"
proof (induction s arbitrary: acc)
  case Nil
  then show ?case by simp
next
  case (Cons c s)
  have "parse_string acc (concat (map escape_char (c # s)) @ CHR 0x22 # rest) =
        parse_string acc (escape_char c @ (concat (map escape_char s) @ CHR 0x22 # rest))"
    by simp
  also have "\<dots> = parse_string (acc @ [c]) (concat (map escape_char s) @ CHR 0x22 # rest)"
    by (rule parse_string_escape)
  also have "\<dots> = Some ((acc @ [c]) @ s, rest)" by (rule Cons.IH)
  finally show ?case by simp
qed

lemma digits_of_digits: "c \<in> set (digits_of n) \<Longrightarrow> is_digit c"
proof (induction n rule: digits_of.induct)
  case (1 n)
  then show ?case
    using digit_char_digit [of n] digit_char_digit [of "n mod 10"]
    by (subst (asm) digits_of.simps) (auto split: if_splits)
qed

lemma digits_of_nonempty: "digits_of n \<noteq> []"
  by (subst digits_of.simps) simp

lemma digit_char_zero: "k < 10 \<Longrightarrow> digit_char k = CHR ''0'' \<longleftrightarrow> k = 0"
proof -
  assume "k < 10"
  then have "k = 0 \<or> k = 1 \<or> k = 2 \<or> k = 3 \<or> k = 4 \<or> k = 5 \<or> k = 6 \<or> k = 7 \<or> k = 8
      \<or> k = 9" by arith
  then show ?thesis by (auto simp: digit_char_def)
qed

lemma digits_of_zero: "hd (digits_of n) = CHR ''0'' \<longleftrightarrow> n = 0"
proof (induction n rule: digits_of.induct)
  case (1 n)
  show ?case
  proof (cases "n < 10")
    case True
    then show ?thesis using digit_char_zero [of n] by (subst digits_of.simps) simp
  next
    case False
    then have "n div 10 \<noteq> 0" by simp
    with False "1.IH" have "hd (digits_of (n div 10)) \<noteq> CHR ''0''" by simp
    with False show ?thesis
      by (subst digits_of.simps) (simp add: digits_of_nonempty)
  qed
qed

lemma digits_value_snoc: "digits_value (ds @ [d]) = 10 * digits_value ds + (of_char d - 48)"
  by (simp add: digits_value_def)

lemma digits_value_digits_of: "digits_value (digits_of n) = n"
proof (induction n rule: digits_of.induct)
  case (1 n)
  show ?case
  proof (cases "n < 10")
    case True
    then show ?thesis
      using digit_char_digit [of n] by (subst digits_of.simps) (simp add: digits_value_def)
  next
    case False
    with "1.IH" have "digits_value (digits_of (n div 10)) = n div 10" by simp
    with False show ?thesis
      using digit_char_digit [of "n mod 10"]
      by (subst digits_of.simps) (simp add: digits_value_snoc)
  qed
qed

lemma value_end_no_digit:
  assumes "value_end rest"
  shows "takeWhile is_digit (ds @ rest) = takeWhile is_digit ds"
proof (induction ds)
  case Nil
  show ?case
  proof (cases rest)
    case Nil
    then show ?thesis by simp
  next
    case (Cons c r)
    with assms have "\<not> is_digit c" by (auto simp: value_end_def is_digit_def)
    with Cons show ?thesis by simp
  qed
next
  case (Cons d ds)
  then show ?case by simp
qed

lemma int_digits_digits_of:
  assumes "value_end rest"
  shows "int_digits (digits_of n @ rest) = digits_of n"
proof -
  let ?ds = "digits_of n"
  have all: "takeWhile is_digit ?ds = ?ds" using digits_of_digits by (simp add: takeWhile_eq_all_conv)
  obtain c r where cr: "?ds = c # r" using digits_of_nonempty [of n] by (cases ?ds) auto
  then have hd: "hd ?ds = c" by simp
  show ?thesis
  proof (cases "n = 0")
    case True
    then have "?ds = ''0''" by (subst digits_of.simps) (simp add: digit_char_def)
    then show ?thesis by (simp add: int_digits_def)
  next
    case False
    then have "c \<noteq> CHR ''0''" using digits_of_zero [of n] hd by simp
    then show ?thesis
      using cr all value_end_no_digit [OF assms, of ?ds] by (simp add: int_digits_def)
  qed
qed

lemma has_minus_digits_of: "\<not> has_minus (digits_of n @ rest)"
proof -
  obtain c r where cr: "digits_of n = c # r" using digits_of_nonempty [of n] by (cases "digits_of n") auto
  have "is_digit c" using digits_of_digits [of c n] cr by simp
  then have "c \<noteq> CHR ''-''" by (auto simp: is_digit_def)
  then show ?thesis using cr by (simp add: has_minus_def)
qed

lemma float_tail_value_end: "value_end rest \<Longrightarrow> \<not> float_tail rest"
  by (auto simp: value_end_def float_tail_def split: list.splits)

lemma parse_number_minus:
  "parse_number (CHR ''-'' # s) =
     (if int_digits s = [] \<or> float_tail (drop (length (int_digits s)) s) then None
      else Some (PInt (- int (digits_value (int_digits s))), drop (length (int_digits s)) s))"
  by (simp add: parse_number_def has_minus_def Let_def)

lemma parse_number_plain:
  "\<not> has_minus s \<Longrightarrow> parse_number s =
     (if int_digits s = [] \<or> float_tail (drop (length (int_digits s)) s) then None
      else Some (PInt (int (digits_value (int_digits s))), drop (length (int_digits s)) s))"
  by (simp add: parse_number_def Let_def)


lemma parse_number_repr_int:
  assumes "value_end rest"
  shows "parse_number (repr_int i @ rest) = Some (PInt i, rest)"
proof (cases "i < 0")
  case True
  let ?ds = "digits_of (nat (- i))"
  have "parse_number (CHR ''-'' # (?ds @ rest)) = Some (PInt (- int (nat (- i))), rest)"
    using int_digits_digits_of [OF assms, of "nat (- i)"] float_tail_value_end [OF assms]
      digits_of_nonempty [of "nat (- i)"]
    by (simp only: parse_number_minus) (simp add: digits_value_digits_of)
  with True show ?thesis by (simp add: repr_int_def)
next
  case False
  let ?ds = "digits_of (nat i)"
  have "parse_number (?ds @ rest) = Some (PInt (int (nat i)), rest)"
    using int_digits_digits_of [OF assms, of "nat i"] float_tail_value_end [OF assms]
      digits_of_nonempty [of "nat i"]
    by (simp only: parse_number_plain [OF has_minus_digits_of]) (simp add: digits_value_digits_of)
  with False show ?thesis by (simp add: repr_int_def)
qed

lemma value_start_facts:
  "value_start c \<Longrightarrow> \<not> json_ws c \<and> c \<noteq> CHR '']'' \<and> c \<noteq> CHR ''}'' \<and> c \<noteq> CHR '','' \<and> c \<noteq> CHR '':''"
  by (auto simp: value_start_def json_ws_def)

lemma skip_ws_start: "value_start c \<Longrightarrow> skip_ws (c # r) = c # r"
  using value_start_facts [of c] by (simp add: skip_ws_def)

lemma skip_ws_structural:
  "skip_ws (CHR '','' # r) = CHR '','' # r" "skip_ws (CHR '']'' # r) = CHR '']'' # r"
  "skip_ws (CHR ''}'' # r) = CHR ''}'' # r" "skip_ws (CHR '':'' # r) = CHR '':'' # r"
  "skip_ws (CHR '' '' # r) = skip_ws r"
  by (simp_all add: skip_ws_def json_ws_def)

lemma repr_int_start: "\<exists>c r. repr_int i = c # r \<and> value_start c"
proof (cases "i < 0")
  case True
  then show ?thesis by (simp add: repr_int_def value_start_def)
next
  case False
  obtain c r where cr: "digits_of (nat i) = c # r"
    using digits_of_nonempty [of "nat i"] by (cases "digits_of (nat i)") auto
  then have "is_digit c" using digits_of_digits [of c "nat i"] by simp
  then have "value_start c" by (auto simp: is_digit_def value_start_def)
  with False cr show ?thesis by (simp add: repr_int_def)
qed

lemma dumps_start:
  assumes "dumps v = Some s"
  shows "\<exists>c r. s = c # r \<and> value_start c"
proof (cases v)
  case PNone
  with assms have "s = ''null''" by simp
  then show ?thesis by (simp add: value_start_def)
next
  case (PBool b)
  with assms have "s = ''true'' \<or> s = ''false''" by (cases b) auto
  then show ?thesis by (auto simp: value_start_def)
next
  case (PInt i)
  with assms repr_int_start [of i] show ?thesis by auto
next
  case (PStr t)
  with assms have "s = CHR 0x22 # concat (map escape_char t) @ [CHR 0x22]"
    by (simp add: dumps_str_def)
  then show ?thesis by (simp add: value_start_def)
next
  case (PList xs)
  with assms obtain ss where "s = CHR ''['' # join '', '' ss @ '']''"
    by (cases "dumps_list xs") auto
  then show ?thesis by (simp add: value_start_def)
next
  case (PDict kvs)
  with assms obtain ss where "s = CHR ''{'' # join '', '' ss @ ''}''"
    by (cases "dumps_items kvs") auto
  then show ?thesis by (simp add: value_start_def)
next
  case PObject
  with assms show ?thesis by simp
qed

lemma dumps_list_Cons:
  "dumps_list (x # xs) = Some ss \<Longrightarrow>
     \<exists>s ss'. dumps x = Some s \<and> dumps_list xs = Some ss' \<and> ss = s # ss'"
  by (auto split: option.splits)

lemma dumps_items_Cons:
  "dumps_items ((k, v) # kvs) = Some ss \<Longrightarrow>
     \<exists>s ss'. dumps v = Some s \<and> dumps_items kvs = Some ss' \<and> ss = (dumps_str k @ '': '' @ s) # ss'"
  by (auto split: option.splits)

lemma join_start:
  assumes "dumps_list xs = Some ss" and "xs \<noteq> []"
  shows "\<exists>c r. join sep ss = c # r \<and> value_start c"
proof -
  obtain x xs' where x: "xs = x # xs'" using assms(2) by (cases xs) auto
  with assms(1) dumps_list_Cons [of x xs' ss] obtain s ss' where
    s: "dumps x = Some s" "ss = s # ss'" by auto
  from dumps_start [OF s(1)] obtain c r where "s = c # r" "value_start c" by auto
  with s(2) show ?thesis by (cases ss') auto
qed

lemma parse_elems_list:
  assumes "\<And>x s rest. x \<in> set xs \<Longrightarrow> dumps x = Some s \<Longrightarrow> value_end rest \<Longrightarrow> pv (s @ rest) = Some (x, rest)"
    and "dumps_list xs = Some ss" and "xs \<noteq> []" and "length xs \<le> n"
  shows "parse_elems pv n acc (join '', '' ss @ '']'' @ rest) = Some (acc @ xs, rest)"
  using assms
proof (induction xs arbitrary: ss n acc)
  case Nil
  then show ?case by simp
next
  case (Cons x xs)
  from dumps_list_Cons [OF Cons.prems(2)] obtain s ss' where
    s: "dumps x = Some s" "dumps_list xs = Some ss'" "ss = s # ss'" by auto
  obtain m where n: "n = Suc m" using Cons.prems(4) by (cases n) auto
  show ?case
  proof (cases xs)
    case Nil
    with s have "ss = [s]" by simp
    moreover have "pv (s @ ('']'' @ rest)) = Some (x, '']'' @ rest)"
      using Cons.prems(1) [of x s "'']'' @ rest"] s(1) by (simp add: value_end_def)
    ultimately show ?thesis using Nil n by (simp add: skip_ws_structural)
  next
    case (Cons y ys)
    from join_start [OF s(2), of "'', ''"] Cons obtain c r where
      j: "join '', '' ss' = c # r" "value_start c" by auto
    have ne: "ss' \<noteq> []" using j(1) by auto
    then obtain t ts where ss': "ss' = t # ts" by (cases ss') auto
    have first: "pv (s @ ('', '' @ join '', '' ss' @ '']'' @ rest)) =
                Some (x, '', '' @ join '', '' ss' @ '']'' @ rest)"
      using Cons.prems(1) [of x s] s(1) by (simp add: value_end_def)
    have IH: "parse_elems pv m (acc @ [x]) (join '', '' ss' @ '']'' @ rest) = Some ((acc @ [x]) @ xs, rest)"
      using Cons.prems(1,4) s(2) Cons n by (intro Cons.IH) auto
    have "parse_elems pv n acc (join '', '' ss @ '']'' @ rest) =
          parse_elems pv m (acc @ [x]) (skip_ws (join '', '' ss' @ '']'' @ rest))"
      using first by (simp add: n s(3) ss' skip_ws_structural)
    also have "skip_ws (join '', '' ss' @ '']'' @ rest) = join '', '' ss' @ '']'' @ rest"
      using skip_ws_start [OF j(2)] by (simp add: j(1))
    finally show ?thesis using IH by simp
  qed
qed

lemma dict_set_new: "k \<notin> fst ` set acc \<Longrightarrow> dict_set acc k v = acc @ [(k, v)]"
  by (induction acc) auto

lemma join_items_start:
  assumes "dumps_items kvs = Some ss" and "kvs \<noteq> []"
  shows "\<exists>r. join sep ss = CHR 0x22 # r"
proof -
  obtain k v kvs' where x: "kvs = (k, v) # kvs'" using assms(2) by (cases kvs) auto
  with assms(1) dumps_items_Cons [of k v kvs' ss] obtain s ss' where
    s: "ss = (dumps_str k @ '': '' @ s) # ss'" by auto
  then show ?thesis by (cases ss') (auto simp: dumps_str_def)
qed

lemma parse_items_list:
  assumes "\<And>k x s rest. (k, x) \<in> set kvs \<Longrightarrow> dumps x = Some s \<Longrightarrow> value_end rest
             \<Longrightarrow> pv (s @ rest) = Some (x, rest)"
    and "dumps_items kvs = Some ss" and "kvs \<noteq> []" and "length kvs \<le> n"
    and "distinct (map fst (acc @ kvs))"
  shows "parse_items pv n acc (join '', '' ss @ ''}'' @ rest) = Some (acc @ kvs, rest)"
  using assms
proof (induction kvs arbitrary: ss n acc)
  case Nil
  then show ?case by simp
next
  case (Cons kv kvs)
  obtain k x where kv: "kv = (k, x)" by (cases kv) auto
  from dumps_items_Cons [of k x kvs ss] Cons.prems(2) kv obtain s ss' where
    s: "dumps x = Some s" "dumps_items kvs = Some ss'" "ss = (dumps_str k @ '': '' @ s) # ss'" by auto
  obtain m where n: "n = Suc m" using Cons.prems(4) by (cases n) auto
  from dumps_start [OF s(1)] obtain c r where cr: "s = c # r" "value_start c" by auto
  have new: "dict_set acc k x = acc @ [(k, x)]"
    using Cons.prems(5) kv by (intro dict_set_new) auto
  have key: "parse_string [] (concat (map escape_char k) @ CHR 0x22 # t) = Some (k, t)" for t
    using parse_string_escaped [of "[]" k t] by simp
  show ?case
  proof (cases kvs)
    case Nil
    with s have ss: "ss = [dumps_str k @ '': '' @ s]" by simp
    have v: "pv (s @ (''}'' @ rest)) = Some (x, ''}'' @ rest)"
      using Cons.prems(1) [of k x s "''}'' @ rest"] s(1) kv by (simp add: value_end_def)
    have sk: "skip_ws (s @ ''}'' @ rest) = s @ ''}'' @ rest"
      using skip_ws_start [OF cr(2)] by (simp add: cr(1))
    have "parse_items pv (Suc m) acc (CHR 0x22 # concat (map escape_char k) @ CHR 0x22 # ('': '' @ s @ ''}'' @ rest))
          = Some (acc @ [(k, x)], rest)"
      using v sk by (simp add: key skip_ws_structural new)
    then show ?thesis using Nil n ss kv by (simp add: dumps_str_def)
  next
    case (Cons kv2 kvs2)
    from join_items_start [OF s(2), of "'', ''"] Cons obtain j where
      j: "join '', '' ss' = CHR 0x22 # j" by auto
    then obtain t ts where ss': "ss' = t # ts" by (cases ss') auto
    let ?more = "join '', '' ss' @ ''}'' @ rest"
    have v: "pv (s @ ('', '' @ ?more)) = Some (x, '', '' @ ?more)"
      using Cons.prems(1) [of k x s] s(1) kv by (simp add: value_end_def)
    have sk: "skip_ws (s @ '', '' @ ?more) = s @ '', '' @ ?more"
      using skip_ws_start [OF cr(2)] by (simp add: cr(1))
    have sk2: "skip_ws ?more = ?more" by (simp add: j skip_ws_def json_ws_def)
    have IH: "parse_items pv m (acc @ [(k, x)]) ?more = Some ((acc @ [(k, x)]) @ kvs, rest)"
      using Cons.prems(1,4,5) s(2) Cons n kv by (intro Cons.IH) auto
    have "parse_items pv (Suc m) acc (CHR 0x22 # concat (map escape_char k) @ CHR 0x22 # ('': '' @ s @ '', '' @ ?more))
          = parse_items pv m (acc @ [(k, x)]) ?more"
      using v sk sk2 by (simp add: key skip_ws_structural new)
    then show ?thesis using IH n s(3) ss' kv by (simp add: dumps_str_def)
  qed
qed

lemma json_values_iff: "json_values xs \<longleftrightarrow> (\<forall>x \<in> set xs. json_value x)"
  by (induction xs) auto

lemma json_items_iff: "json_items kvs \<longleftrightarrow> (\<forall>(k, v) \<in> set kvs. json_value v)"
  by (induction kvs) auto

lemma fuel_list_bounds: "length xs \<le> fuel_list xs \<and> (\<forall>x \<in> set xs. fuel_of x \<le> fuel_list xs)"
  by (induction xs) auto

lemma fuel_items_bounds:
  "length kvs \<le> fuel_items kvs \<and> (\<forall>(k, v) \<in> set kvs. fuel_of v \<le> fuel_items kvs)"
  by (induction kvs) auto

lemma parse_value_dumps:
  "dumps v = Some s \<Longrightarrow> json_value v \<Longrightarrow> value_end rest \<Longrightarrow> fuel_of v \<le> n
     \<Longrightarrow> parse_value n (s @ rest) = Some (v, rest)"
proof (induction v arbitrary: s rest n)
  case PNone
  then obtain m where n: "n = Suc m" by (cases n) auto
  from PNone.prems(1) have "s = ''null''" by simp
  then show ?case by (simp add: n)
next
  case (PBool b)
  then obtain m where n: "n = Suc m" by (cases n) auto
  show ?case
  proof (cases b)
    case True
    with PBool.prems(1) have "s = ''true''" by simp
    then show ?thesis by (simp add: n True)
  next
    case False
    with PBool.prems(1) have "s = ''false''" by simp
    then show ?thesis by (simp add: n False)
  qed
next
  case (PInt i)
  then obtain m where n: "n = Suc m" by (cases n) auto
  from repr_int_start [of i] obtain c r where cr: "repr_int i = c # r" "value_start c" by auto
  have d: "c \<noteq> CHR 0x22" "c \<noteq> CHR ''{''" "c \<noteq> CHR ''[''" "c \<noteq> CHR ''n''" "c \<noteq> CHR ''t''" "c \<noteq> CHR ''f''"
  proof -
    have "c = CHR ''-'' \<or> is_digit c"
    proof (cases "i < 0")
      case True
      with cr(1) show ?thesis by (simp add: repr_int_def)
    next
      case False
      with cr(1) digits_of_digits [of c "nat i"] show ?thesis by (simp add: repr_int_def)
    qed
    then show "c \<noteq> CHR 0x22" "c \<noteq> CHR ''{''" "c \<noteq> CHR ''[''" "c \<noteq> CHR ''n''" "c \<noteq> CHR ''t''" "c \<noteq> CHR ''f''"
      by (auto simp: is_digit_def)
  qed
  have "parse_value (Suc m) (c # (r @ rest)) = parse_number (c # (r @ rest))"
    using d by simp
  moreover from PInt.prems(1) have "s = repr_int i" by simp
  ultimately have "parse_value n (s @ rest) = parse_number (repr_int i @ rest)"
    by (simp add: n cr(1))
  then show ?case using parse_number_repr_int [OF PInt.prems(3), of i] by simp
next
  case (PStr t)
  then obtain m where "n = Suc m" by (cases n) auto
  moreover from PStr.prems(1) have "s = CHR 0x22 # concat (map escape_char t) @ [CHR 0x22]"
    by (simp add: dumps_str_def)
  ultimately show ?case using parse_string_escaped [of "[]" t rest] by simp
next
  case (PList xs)
  then obtain m where n: "n = Suc m" by (cases n) auto
  from PList.prems(1) obtain ss where ss: "dumps_list xs = Some ss" "s = CHR ''['' # join '', '' ss @ '']''"
    by (cases "dumps_list xs") auto
  show ?case
  proof (cases xs)
    case Nil
    with ss have "s = ''[]''" by simp
    then show ?thesis using Nil n by (simp add: skip_ws_structural)
  next
    case (Cons y ys)
    then have ne: "xs \<noteq> []" by simp
    have fl: "fuel_list xs \<le> m" using PList.prems(4) n by simp
    have pv: "parse_value m (t @ rest') = Some (x, rest')"
      if "x \<in> set xs" "dumps x = Some t" "value_end rest'" for x t rest'
    proof -
      have "json_value x" using PList.prems(2) that(1) by (simp add: json_values_iff)
      moreover have "fuel_of x \<le> m" using fuel_list_bounds [of xs] that(1) fl by auto
      ultimately show ?thesis using PList.IH [OF that(1) that(2) _ that(3)] by simp
    qed
    have len: "length xs \<le> m" using fuel_list_bounds [of xs] fl by auto
    from join_start [OF ss(1) ne, of "'', ''"] obtain c r where
      j: "join '', '' ss = c # r" "value_start c" by auto
    have el: "parse_elems (parse_value m) m [] (join '', '' ss @ '']'' @ rest) = Some ([] @ xs, rest)"
      using pv ss(1) ne len by (intro parse_elems_list) auto
    have "skip_ws (c # r @ '']'' @ rest) = c # r @ '']'' @ rest"
      using skip_ws_start [OF j(2)] by simp
    moreover have "c \<noteq> CHR '']''" using value_start_facts [OF j(2)] by simp
    ultimately show ?thesis using el n ss(2) j(1) by simp
  qed
next
  case (PDict kvs)
  then obtain m where n: "n = Suc m" by (cases n) auto
  from PDict.prems(1) obtain ss where ss: "dumps_items kvs = Some ss" "s = CHR ''{'' # join '', '' ss @ ''}''"
    by (cases "dumps_items kvs") auto
  show ?case
  proof (cases kvs)
    case Nil
    with ss have "s = ''{}''" by simp
    then show ?thesis using Nil n by (simp add: skip_ws_structural)
  next
    case (Cons y ys)
    then have ne: "kvs \<noteq> []" by simp
    have fl: "fuel_items kvs \<le> m" using PDict.prems(4) n by simp
    have pv: "parse_value m (t @ rest') = Some (x, rest')"
      if "(k, x) \<in> set kvs" "dumps x = Some t" "value_end rest'" for k x t rest'
    proof -
      have "json_value x" using PDict.prems(2) that(1) by (auto simp: json_items_iff)
      moreover have "fuel_of x \<le> m" using fuel_items_bounds [of kvs] that(1) fl by auto
      moreover have "x \<in> Basic_BNFs.snds (k, x)" by simp
      ultimately show ?thesis using PDict.IH [OF that(1) _ that(2) _ that(3)] by simp
    qed
    have len: "length kvs \<le> m" using fuel_items_bounds [of kvs] fl by auto
    have di: "distinct (map fst ([] @ kvs))" using PDict.prems(2) by simp
    from join_items_start [OF ss(1) ne, of "'', ''"] obtain r where
      j: "join '', '' ss = CHR 0x22 # r" by auto
    have el: "parse_items (parse_value m) m [] (join '', '' ss @ ''}'' @ rest) = Some ([] @ kvs, rest)"
      using pv ss(1) ne len di by (intro parse_items_list) auto
    have "skip_ws (CHR 0x22 # r @ ''}'' @ rest) = CHR 0x22 # r @ ''}'' @ rest"
      by (simp add: skip_ws_def json_ws_def)
    then show ?thesis using el n ss(2) j by simp
  qed
next
  case PObject
  then show ?case by simp
qed

lemma fuel_list_join:
  assumes "\<And>x t. x \<in> set xs \<Longrightarrow> dumps x = Some t \<Longrightarrow> fuel_of x \<le> length t"
    and "dumps_list xs = Some ss"
  shows "fuel_list xs \<le> length (join '', '' ss) + 1"
  using assms
proof (induction xs arbitrary: ss)
  case Nil
  then show ?case by simp
next
  case (Cons x xs)
  from dumps_list_Cons [OF Cons.prems(2)] obtain t ss' where
    t: "dumps x = Some t" "dumps_list xs = Some ss'" "ss = t # ss'" by auto
  have x: "fuel_of x \<le> length t" using Cons.prems(1) t(1) by simp
  have rest: "fuel_list xs \<le> length (join '', '' ss') + 1"
    using Cons.prems(1) t(2) by (intro Cons.IH) auto
  show ?case
  proof (cases ss')
    case Nil
    with t(2) have "xs = []" by (cases xs) (auto split: option.splits)
    with x t(3) Nil show ?thesis by simp
  next
    case (Cons u us)
    with x rest t(3) show ?thesis by simp
  qed
qed

lemma fuel_items_join:
  assumes "\<And>k x t. (k, x) \<in> set kvs \<Longrightarrow> dumps x = Some t \<Longrightarrow> fuel_of x \<le> length t"
    and "dumps_items kvs = Some ss"
  shows "fuel_items kvs \<le> length (join '', '' ss) + 1"
  using assms
proof (induction kvs arbitrary: ss)
  case Nil
  then show ?case by simp
next
  case (Cons kv kvs)
  obtain k x where kv: "kv = (k, x)" by (cases kv) auto
  from dumps_items_Cons [of k x kvs ss] Cons.prems(2) kv obtain t ss' where
    t: "dumps x = Some t" "dumps_items kvs = Some ss'" "ss = (dumps_str k @ '': '' @ t) # ss'" by auto
  have x: "fuel_of x \<le> length t" using Cons.prems(1) [of k x t] t(1) kv by simp
  have rest: "fuel_items kvs \<le> length (join '', '' ss') + 1"
    using Cons.prems(1) t(2) by (intro Cons.IH) auto
  show ?case
  proof (cases ss')
    case Nil
    with t(2) have "kvs = []" by (cases kvs) (auto split: option.splits)
    with x t(3) Nil kv show ?thesis by simp
  next
    case (Cons u us)
    with x rest t(3) kv show ?thesis by simp
  qed
qed

lemma fuel_le_length: "dumps v = Some s \<Longrightarrow> fuel_of v \<le> length s"
proof (induction v arbitrary: s)
  case (PList xs)
  from PList.prems obtain ss where ss: "dumps_list xs = Some ss" "s = CHR ''['' # join '', '' ss @ '']''"
    by (cases "dumps_list xs") auto
  have "fuel_list xs \<le> length (join '', '' ss) + 1"
    using PList.IH ss(1) by (intro fuel_list_join) auto
  then show ?case by (simp add: ss(2))
next
  case (PDict kvs)
  from PDict.prems obtain ss where ss: "dumps_items kvs = Some ss" "s = CHR ''{'' # join '', '' ss @ ''}''"
    by (cases "dumps_items kvs") auto
  have "fuel_of x \<le> length t" if "(k, x) \<in> set kvs" "dumps x = Some t" for k x t
    using PDict.IH [OF that(1) _ that(2)] by simp
  then have "fuel_items kvs \<le> length (join '', '' ss) + 1"
    using ss(1) by (intro fuel_items_join) auto
  then show ?case by (simp add: ss(2))
next
  case PObject
  then show ?case by simp
qed (use dumps_start in \<open>fastforce+\<close>)

lemma loads_dumps:
  assumes "dumps v = Some s" and "json_value v"
  shows "loads s = Some v"
proof -
  from dumps_start [OF assms(1)] obtain c r where cr: "s = c # r" "value_start c" by auto
  have "skip_ws s = s" using skip_ws_start [OF cr(2)] cr(1) by simp
  moreover have "parse_value (length s) (s @ []) = Some (v, [])"
    using assms fuel_le_length [OF assms(1)] by (intro parse_value_dumps) (simp_all add: value_end_def)
  ultimately show ?thesis by (simp add: loads_def skip_ws_def)
qed

subsection \<open>The logged document\<close>

lemma wrap_payload_document:
  assumes "structured payload" and "json_value payload"
  shows "\<exists>kvs. wrap_payload payload = PDict kvs \<and> json_value (PDict kvs)"
  using assms by (cases payload) (simp_all add: structured_def wrap_payload_def)

lemma dumps_document_text: "dumps (PDict kvs) = Some t \<Longrightarrow> \<exists>u. t = CHR ''{'' # u"
  by (cases "dumps_items kvs") auto

text \<open>
  C7. For a payload that is a dictionary or a string, made of \<^verbatim>\<open>None\<close>, booleans,
  integers, strings, lists and dictionaries with distinct string keys: when \<^verbatim>\<open>log\<close>
  succeeds, the new row holds the document as text, unchanged by the numeric affinity of
  its column; \<^verbatim>\<open>get_results_since\<close> with an earlier timestamp returns that row; and
  \<^verbatim>\<open>json.loads\<close> of its text is the payload itself when the payload is a dictionary,
  and \<^verbatim>\<open>{"output": s}\<close> when the payload is the string \<open>s\<close>.
\<close>

theorem logged_document_round_trip:
  assumes "log_wallaby argv now w wd payload tags job = (Inr True, w', wd')"
    and "structured payload" and "json_value payload" and "since < now"
  shows "\<exists>r t. stored_rows w' wd' = insert_row r (stored_rows w wd) \<and> results r = SText t
           \<and> (\<exists>rs. fst (get_results_since w' wd' since) = Inr rs \<and> r \<in> set rs)
           \<and> (\<forall>kvs. payload = PDict kvs \<longrightarrow> loads t = Some payload)
           \<and> (\<forall>s. payload = PStr s \<longrightarrow> loads t = Some (PDict [(''output'', PStr s)]))"
proof -
  from log_wallaby_Inr [OF assms(1)] obtain tb i k t where
    l: "files wd (conn_path w) = Some tb" "schema tb = results_schema"
    "dumps (wrap_payload payload) = Some t" "w' = cursor w"
    "files wd' = (files wd)(conn_path w := Some (tb\<lparr>rows := insert_row (new_row i argv now t tags job) (rows tb)\<rparr>))"
    by blast
  let ?r = "new_row i argv now t tags job"
  from wrap_payload_document [OF assms(2,3)] obtain kvs where
    d: "wrap_payload payload = PDict kvs" "json_value (PDict kvs)" by blast
  from dumps_document_text [of kvs t] l(3) d(1) obtain u where u: "t = CHR ''{'' # u" by auto
  have 1: "stored_rows w' wd' = insert_row ?r (stored_rows w wd)"
    using l by (simp add: stored_rows_def conn_path_cursor)
  have 2: "results ?r = SText t"
    using looks_numeric_brace [of u] by (simp add: new_row_def store_text_def u)
  have 3: "loads t = Some (wrap_payload payload)"
    using loads_dumps [of "wrap_payload payload" t] l(3) d by simp
  have tb': "files wd' (conn_path w') = Some (tb\<lparr>rows := insert_row ?r (rows tb)\<rparr>)"
    using l by (simp add: conn_path_cursor)
  have "fst (get_results_since w' wd' since) =
        Inr (filter (\<lambda>r. since < date r) (rows (tb\<lparr>rows := insert_row ?r (rows tb)\<rparr>)))"
    using rows_since_filter [OF tb', of since] l(2) by simp
  moreover have "?r \<in> set (filter (\<lambda>r. since < date r) (rows (tb\<lparr>rows := insert_row ?r (rows tb)\<rparr>)))"
    using assms(4) by (simp add: set_insert_row) (simp add: new_row_def)
  ultimately have 4: "\<exists>rs. fst (get_results_since w' wd' since) = Inr rs \<and> ?r \<in> set rs" by blast
  have 5: "\<forall>kvs. payload = PDict kvs \<longrightarrow> loads t = Some payload"
    using 3 by (auto simp: wrap_payload_def)
  have 6: "\<forall>s. payload = PStr s \<longrightarrow> loads t = Some (PDict [(''output'', PStr s)])"
    using 3 by (auto simp: wrap_payload_def)
  from 1 2 4 5 6 show ?thesis by blast
qed


end
